theory Spec2Isabelle
  imports Complex_Main "HOL-Library.Multiset" "HOL-Library.List_Lexorder" "HOL-Library.Char_ord"
begin

section \<open>Geometry model and tree nodes (Node.h)\<close>

text \<open>
  The C++ classes of \<open>Node.h\<close>. A \<open>double\<close> coordinate is modelled as a real
  number, so every statement below is about the arithmetic of the program over the
  reals (no rounding, no NaN, no infinities).

  A \<open>Node\<close> object (called \<open>LeafNode\<close> by the loader) carries an id and an MBR;
  an \<open>InternalNode\<close> adds the flag \<open>children_are_leafs\<close> and the vector of child
  pointers. The pointer structure built by the loader and by the deserializer is finite
  and acyclic (a child always exists before its parent is created), and the query
  engines only read it, so a node is modelled by the value of the subtree below it.
  The test \<open>dynamic_pointer_cast<InternalNode>(p) != nullptr\<close> is the case
  distinction on the constructor.

  The loader includes \<open>LeafNode.h\<close>, which is not among the sources. As the loader's
  documentation describes them, its classes are those of \<open>Node.h\<close> with \<open>LeafNode\<close>
  as the name of the class \<open>Node\<close>; they are taken from \<open>Node.h\<close>.
\<close>

record MBR =
  x_low :: real
  y_low :: real
  x_high :: real
  y_high :: real

datatype node =
    Node (node_id: int) (mbr: MBR)
  | InternalNode (node_id: int) (mbr: MBR) (children_are_leafs: bool) (children: "node list")
where
  "children_are_leafs (Node i m) = False"
| "children (Node i m) = []"

text \<open>\<open>update_parent_mbr\<close>: the parent rectangle grows to cover the child.\<close>

definition update_parent_mbr :: "MBR \<Rightarrow> MBR \<Rightarrow> MBR" where
  "update_parent_mbr parent_mbr child_mbr =
     \<lparr> x_low = min (x_low parent_mbr) (x_low child_mbr),
       y_low = min (y_low parent_mbr) (y_low child_mbr),
       x_high = max (x_high parent_mbr) (x_high child_mbr),
       y_high = max (y_high parent_mbr) (y_high child_mbr) \<rparr>"

section \<open>Range queries (range_queries.cpp)\<close>



section \<open>Notions of the specification\<close>

text \<open>The leaves below a node, in the order of a left-to-right traversal.\<close>

fun leaves :: "node \<Rightarrow> node list" where
  "leaves (Node i m) = [Node i m]"
| "leaves (InternalNode i m f cs) = concat (map leaves cs)"

text \<open>Rectangle \<open>p\<close> contains rectangle \<open>c\<close>.\<close>

definition mbr_contains :: "MBR \<Rightarrow> MBR \<Rightarrow> bool" where
  "mbr_contains p c \<longleftrightarrow>
     x_low p \<le> x_low c \<and> x_high c \<le> x_high p \<and> y_low p \<le> y_low c \<and> y_high c \<le> y_high p"

text \<open>Every internal node's MBR contains the MBR of each of its children.\<close>

fun covering :: "node \<Rightarrow> bool" where
  "covering (Node i m) = True"
| "covering (InternalNode i m f cs) = (\<forall>c \<in> set cs. mbr_contains m (mbr c) \<and> covering c)"


section \<open>Range query: soundness and completeness\<close>



lemma covering_leaf_contained:
  "covering t \<Longrightarrow> l \<in> set (leaves t) \<Longrightarrow> t = l \<or> mbr_contains (mbr t) (mbr l)"
proof (induction t arbitrary: l)
  case (Node i m)
  then show ?case by simp
next
  case (InternalNode i m f cs)
  from InternalNode.prems obtain c where c: "c \<in> set cs" "l \<in> set (leaves c)"
    by auto
  with InternalNode.prems have cov: "mbr_contains m (mbr c)" "covering c"
    by auto
  from InternalNode.IH [OF c(1) cov(2) c(2)] have "c = l \<or> mbr_contains (mbr c) (mbr l)" .
  with cov(1) show ?case
    by (auto simp: mbr_contains_def)
qed





section \<open>Distance from a point to a rectangle (k_nearest_neighbors.cpp)\<close>

definition min_dist :: "MBR \<Rightarrow> real \<Rightarrow> real \<Rightarrow> real" where
  "min_dist m qx qy =
     (let dx = (if qx < x_low m then x_low m - qx
                else if qx > x_high m then qx - x_high m
                else 0);
          dy = (if qy < y_low m then y_low m - qy
                else if qy > y_high m then qy - y_high m
                else 0)
      in sqrt (dx * dx + dy * dy))"

text \<open>
  Notions of the specification: the points of a rectangle, the Euclidean distance between
  two points, and the clamping of a coordinate to an interval.
\<close>

definition inside :: "MBR \<Rightarrow> real \<Rightarrow> real \<Rightarrow> bool" where
  "inside m px py \<longleftrightarrow> x_low m \<le> px \<and> px \<le> x_high m \<and> y_low m \<le> py \<and> py \<le> y_high m"

definition euclid :: "real \<Rightarrow> real \<Rightarrow> real \<Rightarrow> real \<Rightarrow> real" where
  "euclid qx qy px py = sqrt ((qx - px)\<^sup>2 + (qy - py)\<^sup>2)"

definition clamp :: "real \<Rightarrow> real \<Rightarrow> real \<Rightarrow> real" where
  "clamp lo hi v = max lo (min hi v)"

lemma min_dist_clamp:
  assumes "x_low m \<le> x_high m" "y_low m \<le> y_high m"
  shows "min_dist m qx qy =
           euclid qx qy (clamp (x_low m) (x_high m) qx) (clamp (y_low m) (y_high m) qy)"
proof -
  have "(if qx < x_low m then x_low m - qx else if qx > x_high m then qx - x_high m else 0)
          = \<bar>qx - clamp (x_low m) (x_high m) qx\<bar>"
    using assms(1) by (auto simp: clamp_def)
  moreover have "(if qy < y_low m then y_low m - qy else if qy > y_high m then qy - y_high m else 0)
          = \<bar>qy - clamp (y_low m) (y_high m) qy\<bar>"
    using assms(2) by (auto simp: clamp_def)
  ultimately show ?thesis
    by (simp add: min_dist_def euclid_def Let_def power2_eq_square)
qed

lemma clamp_nearest:
  assumes "lo \<le> p" "p \<le> hi"
  shows "(q - clamp lo hi q)\<^sup>2 \<le> (q - p)\<^sup>2"
proof -
  have "\<bar>q - clamp lo hi q\<bar> \<le> \<bar>q - p\<bar>"
    using assms by (auto simp: clamp_def)
  then show ?thesis
    by (simp only: abs_le_square_iff)
qed

text \<open>
  C9. For a rectangle with \<open>x_low \<le> x_high\<close> and \<open>y_low \<le> y_high\<close> and a query point,
  \<open>min_dist\<close> is the Euclidean combination of the two per-axis clamped distances; the
  clamped point lies in the rectangle, so the value is the distance to a point of the
  rectangle; no point of the rectangle is closer (admissible lower bound); and the value
  is 0 for a query point inside the rectangle.
\<close>

theorem min_dist_closest:
  assumes "x_low m \<le> x_high m" "y_low m \<le> y_high m"
  shows "min_dist m qx qy =
           euclid qx qy (clamp (x_low m) (x_high m) qx) (clamp (y_low m) (y_high m) qy)
       \<and> inside m (clamp (x_low m) (x_high m) qx) (clamp (y_low m) (y_high m) qy)
       \<and> (\<forall>px py. inside m px py \<longrightarrow> min_dist m qx qy \<le> euclid qx qy px py)
       \<and> (inside m qx qy \<longrightarrow> min_dist m qx qy = 0)"
proof (intro conjI allI impI)
  show eq: "min_dist m qx qy =
           euclid qx qy (clamp (x_low m) (x_high m) qx) (clamp (y_low m) (y_high m) qy)"
    by (rule min_dist_clamp [OF assms])
  show "inside m (clamp (x_low m) (x_high m) qx) (clamp (y_low m) (y_high m) qy)"
    using assms by (auto simp: inside_def clamp_def)
  show "min_dist m qx qy \<le> euclid qx qy px py" if "inside m px py" for px py
  proof -
    from that have "(qx - clamp (x_low m) (x_high m) qx)\<^sup>2 \<le> (qx - px)\<^sup>2"
      and "(qy - clamp (y_low m) (y_high m) qy)\<^sup>2 \<le> (qy - py)\<^sup>2"
      by (auto simp: inside_def intro: clamp_nearest)
    then show ?thesis
      unfolding eq euclid_def by (intro real_sqrt_le_mono add_mono)
  qed
  show "min_dist m qx qy = 0" if "inside m qx qy"
    using that by (auto simp: min_dist_def inside_def)
qed

theorem min_dist_closest_witness:
  "x_low \<lparr>x_low = 0, y_low = 0, x_high = 1, y_high = 1\<rparr> \<le> x_high \<lparr>x_low = 0, y_low = 0, x_high = 1, y_high = 1\<rparr>
   \<and> y_low \<lparr>x_low = 0, y_low = 0, x_high = 1, y_high = 1\<rparr> \<le> y_high \<lparr>x_low = 0, y_low = 0, x_high = 1, y_high = 1\<rparr>
   \<and> min_dist \<lparr>x_low = 0, y_low = 0, x_high = 1, y_high = 1\<rparr> 4 5 = 5
   \<and> inside \<lparr>x_low = 0, y_low = 0, x_high = 1, y_high = 1\<rparr> 1 1
   \<and> min_dist \<lparr>x_low = 0, y_low = 0, x_high = 1, y_high = 1\<rparr> 4 5 \<le> euclid 4 5 0 (1/2)"
proof -
  let ?m = "\<lparr>x_low = 0, y_low = 0, x_high = 1, y_high = 1\<rparr>"
  have h1: "x_low ?m \<le> x_high ?m" and h2: "y_low ?m \<le> y_high ?m"
    by simp_all
  have ins: "inside ?m 0 (1/2)"
    by (simp add: inside_def)
  from min_dist_closest [OF h1 h2, of 4 5] ins
  have "min_dist ?m 4 5 \<le> euclid 4 5 0 (1/2)"
    by blast
  moreover have "min_dist ?m 4 5 = 5"
    by (simp add: min_dist_def)
  moreover have "inside ?m 1 1"
    by (simp add: inside_def)
  ultimately show ?thesis
    using h1 h2 by blast
qed

text \<open>
  The three entries of the specification's concrete scenario under one root, and the
  range query \<open>[1,1,4,4]\<close>: entry 1 touches the query rectangle in the corner
  \<open>(1,1)\<close> and is reported under the closed-interval rule.
\<close>

definition example_tree :: node where
  "example_tree = InternalNode 0 \<lparr>x_low = 0, y_low = 0, x_high = 6, y_high = 6\<rparr> True
          [Node 1 \<lparr>x_low = 0, y_low = 0, x_high = 1, y_high = 1\<rparr>,
           Node 2 \<lparr>x_low = 5, y_low = 5, x_high = 6, y_high = 6\<rparr>,
           Node 3 \<lparr>x_low = 2, y_low = 2, x_high = 3, y_high = 3\<rparr>]"


section \<open>Bulk loading (r_tree_bulk_loading.cpp)\<close>

text \<open>
  Where the C++ code has undefined behaviour or throws an exception that nothing catches,
  the model returns a \<open>failure\<close>: an access to \<open>front()\<close>, \<open>back()\<close> or element 0
  of an empty vector, an index past the end of a vector, the dereference of the iterator
  \<open>end()\<close>, the exceptions \<open>std::invalid_argument\<close> and \<open>std::out_of_range\<close> of
  \<open>std::stoi\<close> and \<open>std::stod\<close>, and the dereference of a null pointer.
\<close>

datatype failure =
    EmptyVectorAccess
  | IndexOutOfRange
  | EndIteratorDereference
  | InvalidArgument
  | OutOfRange
  | NullPointerDereference

text \<open>
  Assignments to the fields \<open>mbr\<close> and \<open>children\<close> of an \<open>InternalNode\<close> object.
\<close>

definition set_mbr :: "node \<Rightarrow> MBR \<Rightarrow> node" where
  "set_mbr n m = InternalNode (node_id n) m (children_are_leafs n) (children n)"

definition set_children :: "node \<Rightarrow> node list \<Rightarrow> node" where
  "set_children n cs = InternalNode (node_id n) (mbr n) (children_are_leafs n) cs"

text \<open>
  \<open>recompute_node_mbr\<close> starts from \<open>children[0]->mbr\<close>, which does not exist for a
  node without children, and grows the rectangle over the other children.
\<close>

definition recompute_node_mbr :: "node \<Rightarrow> failure + node" where
  "recompute_node_mbr internal_node =
     (case children internal_node of
        [] \<Rightarrow> Inl EmptyVectorAccess
      | c # rest \<Rightarrow>
          Inr (set_mbr internal_node (fold (\<lambda>ch m. update_parent_mbr m (mbr ch)) rest (mbr c))))"

text \<open>
  The class \<open>Entry\<close> (the fields \<open>id\<close> and \<open>mbr\<close> are named \<open>entry_id\<close> and
  \<open>entry_mbr\<close> here), and \<open>build_leaf_nodes\<close>: one leaf per entry, in order.
\<close>

record Entry =
  entry_id :: int
  entry_mbr :: MBR
  z_value :: string

definition build_leaf_nodes :: "Entry list \<Rightarrow> node list" where
  "build_leaf_nodes entries = map (\<lambda>entry. Node (entry_id entry) (entry_mbr entry)) entries"

definition MAX_CHILDREN_PER_NODE :: nat where
  "MAX_CHILDREN_PER_NODE = 20"

definition MIN_CHILDREN_PER_NODE :: nat where
  "MIN_CHILDREN_PER_NODE = 8"

text \<open>
  A new internal node as both loops of \<open>create_upper_level\<close> build it: the MBR starts
  as the MBR of the first child and is grown by \<open>update_parent_mbr\<close> over the others,
  which are appended to the children in order.
\<close>

definition new_internal_node :: "int \<Rightarrow> bool \<Rightarrow> node \<Rightarrow> node list \<Rightarrow> node" where
  "new_internal_node nid leafs first others =
     InternalNode nid (fold (\<lambda>ch m. update_parent_mbr m (mbr ch)) others (mbr first)) leafs
       (first # others)"

text \<open>
  The loop \<open>for (int i = 0; i < needed_children; i++)\<close> of the borrowing step: the last
  child of the full sibling is put in front of the children of the remainder node, whose
  MBR grows; it is removed from the full sibling, whose MBR is recomputed.
  \<open>children.back()\<close> on an empty vector is a failure. The comparison is made in
  \<open>size_t\<close>; the counter \<open>i\<close> stays far below the range of \<open>int\<close>, since the loop
  ends after at most 20 rounds, with its result or with a failure.
\<close>

function borrow_loop :: "nat \<Rightarrow> nat \<Rightarrow> node \<Rightarrow> node \<Rightarrow> failure + (node \<times> node)" where
  "borrow_loop i needed_children last_full_internal_node internal_node_with_remainders =
     (if i < needed_children then
        (case rev (children last_full_internal_node) of
           [] \<Rightarrow> Inl EmptyVectorAccess
         | child # _ \<Rightarrow>
             (let with_remainders =
                    set_children
                      (set_mbr internal_node_with_remainders
                         (update_parent_mbr (mbr internal_node_with_remainders) (mbr child)))
                      (child # children internal_node_with_remainders)
              in case recompute_node_mbr
                        (set_children last_full_internal_node
                           (butlast (children last_full_internal_node))) of
                   Inl e \<Rightarrow> Inl e
                 | Inr last_full \<Rightarrow> borrow_loop (i + 1) needed_children last_full with_remainders))
      else Inr (last_full_internal_node, internal_node_with_remainders))"
  by pat_completeness auto
termination
  by (relation "measure (\<lambda>(i, needed, l, r). needed - i)") auto

declare borrow_loop.simps [simp del]

text \<open>
  \<open>create_upper_level(nodes, node_id)\<close> returns the new level and the new value of the
  counter \<open>node_id\<close>. \<open>needed_children\<close> is a \<open>size_t\<close>, computed as
  \<open>MIN_CHILDREN_PER_NODE - remaining_nodes\<close> in unsigned 64-bit arithmetic: the
  difference is taken modulo \<open>2^64\<close>.
\<close>

definition create_upper_level :: "node list \<Rightarrow> int \<Rightarrow> failure + (node list \<times> int)" where
  "create_upper_level nodes node_id0 =
     (let number_of_full_nodes = length nodes div MAX_CHILDREN_PER_NODE;
          children_are_leafs = (node_id0 = 0);
          upper_level_nodes =
            map (\<lambda>i. new_internal_node (node_id0 + int i) children_are_leafs
                        (nodes ! (i * MAX_CHILDREN_PER_NODE))
                        (map (\<lambda>j. nodes ! (i * MAX_CHILDREN_PER_NODE + j))
                             [1..<MAX_CHILDREN_PER_NODE]))
                [0..<number_of_full_nodes];
          node_id1 = node_id0 + int number_of_full_nodes;
          remaining_nodes = length nodes mod MAX_CHILDREN_PER_NODE
      in if remaining_nodes \<noteq> 0 then
           (let internal_node_with_remainders =
                  new_internal_node node_id1 children_are_leafs
                    (nodes ! (number_of_full_nodes * MAX_CHILDREN_PER_NODE))
                    (map (\<lambda>i. nodes ! i)
                         [number_of_full_nodes * MAX_CHILDREN_PER_NODE + 1..<length nodes]);
                needed_children = (2 ^ 64 + MIN_CHILDREN_PER_NODE - remaining_nodes) mod 2 ^ 64
            in if needed_children > 0 \<and> upper_level_nodes \<noteq> [] then
                 (case borrow_loop 0 needed_children (last upper_level_nodes)
                         internal_node_with_remainders of
                    Inl e \<Rightarrow> Inl e
                  | Inr (last_full, with_remainders) \<Rightarrow>
                      Inr (butlast upper_level_nodes @ [last_full, with_remainders], node_id1 + 1))
               else Inr (upper_level_nodes @ [internal_node_with_remainders], node_id1 + 1))
         else Inr (upper_level_nodes, node_id1))"


text \<open>
  Notions of the specification. \<open>is_union m ms\<close>: the rectangle \<open>m\<close> is the exact
  union (the tightest covering rectangle) of the rectangles \<open>ms\<close>: its low coordinates
  are the least and its high coordinates the greatest of theirs. \<open>mbr_exact\<close>: this
  holds at every internal node.
\<close>

definition is_union :: "MBR \<Rightarrow> MBR list \<Rightarrow> bool" where
  "is_union m ms \<longleftrightarrow>
     ms \<noteq> [] \<and>
     x_low m = Min (set (map x_low ms)) \<and> y_low m = Min (set (map y_low ms)) \<and>
     x_high m = Max (set (map x_high ms)) \<and> y_high m = Max (set (map y_high ms))"

fun mbr_exact :: "node \<Rightarrow> bool" where
  "mbr_exact (Node i m) = True"
| "mbr_exact (InternalNode i m f cs) = (is_union m (map mbr cs) \<and> (\<forall>c \<in> set cs. mbr_exact c))"

lemma is_union_single: "is_union m [m]"
  by (simp add: is_union_def)

lemma is_union_snoc:
  "is_union m ms \<Longrightarrow> is_union (update_parent_mbr m c) (ms @ [c])"
  by (auto simp: is_union_def update_parent_mbr_def min.commute max.commute)

lemma is_union_cons:
  "is_union m ms \<Longrightarrow> is_union (update_parent_mbr m c) (c # ms)"
  by (auto simp: is_union_def update_parent_mbr_def min.commute max.commute)

lemma is_union_fold:
  "is_union m ms \<Longrightarrow>
   is_union (fold (\<lambda>ch m. update_parent_mbr m (mbr ch)) rest m) (ms @ map mbr rest)"
proof (induction rest arbitrary: m ms)
  case Nil
  then show ?case by simp
next
  case (Cons c rest)
  from is_union_snoc [OF Cons.prems, of "mbr c"]
  have "is_union (update_parent_mbr m (mbr c)) (ms @ [mbr c])" .
  from Cons.IH [OF this] show ?case by simp
qed

lemma new_internal_node_union:
  "is_union (mbr (new_internal_node nid lf c rest)) (map mbr (children (new_internal_node nid lf c rest)))"
  using is_union_fold [OF is_union_single, of rest "mbr c"]
  by (simp add: new_internal_node_def)

lemma recompute_node_mbr_Inr:
  "recompute_node_mbr n = Inr n' \<Longrightarrow>
     children n \<noteq> [] \<and> children n' = children n \<and> node_id n' = node_id n \<and>
     children_are_leafs n' = children_are_leafs n \<and> is_union (mbr n') (map mbr (children n))"
  using is_union_fold [OF is_union_single, of "tl (children n)" "mbr (hd (children n))"]
  by (auto simp: recompute_node_mbr_def set_mbr_def split: list.splits)

lemma recompute_node_mbr_nonempty:
  "children n \<noteq> [] \<Longrightarrow> \<exists>n'. recompute_node_mbr n = Inr n'"
  by (auto simp: recompute_node_mbr_def split: list.splits)


lemma set_children_simps [simp]:
  "children (set_children n cs) = cs" "node_id (set_children n cs) = node_id n"
  "mbr (set_children n cs) = mbr n" "children_are_leafs (set_children n cs) = children_are_leafs n"
  by (simp_all add: set_children_def)

lemma set_mbr_simps [simp]:
  "children (set_mbr n m) = children n" "node_id (set_mbr n m) = node_id n"
  "mbr (set_mbr n m) = m" "children_are_leafs (set_mbr n m) = children_are_leafs n"
  by (simp_all add: set_mbr_def)

text \<open>
  What a finished run of the borrowing loop has done when it took \<open>k > 0\<close> children.
\<close>

definition borrowed :: "nat \<Rightarrow> node \<Rightarrow> node \<Rightarrow> node \<Rightarrow> node \<Rightarrow> bool" where
  "borrowed k l r l' r' \<longleftrightarrow>
     0 < k \<and> k < length (children l) \<and>
     children l' = take (length (children l) - k) (children l) \<and>
     children r' = drop (length (children l) - k) (children l) @ children r \<and>
     node_id l' = node_id l \<and> children_are_leafs l' = children_are_leafs l \<and>
     node_id r' = node_id r \<and> children_are_leafs r' = children_are_leafs r \<and>
     is_union (mbr l') (map mbr (children l')) \<and>
     (is_union (mbr r) (map mbr (children r)) \<longrightarrow> is_union (mbr r') (map mbr (children r'))) \<and>
     (\<exists>a b c d. l' = InternalNode a b c d) \<and> (\<exists>a b c d. r' = InternalNode a b c d)"

lemma borrow_loop_Inr:
  "borrow_loop i needed l r = Inr (l', r') \<Longrightarrow>
     (needed \<le> i \<and> l' = l \<and> r' = r) \<or> borrowed (needed - i) l r l' r'"
proof (induction i needed l r rule: borrow_loop.induct)
  case (1 i needed l r)
  note [simp] = borrow_loop.simps [of i needed l r]
  show ?case
  proof (cases "i < needed")
    case False
    with "1.prems" show ?thesis by simp
  next
    case True
    from True "1.prems" obtain child x where rv: "rev (children l) = child # x"
      by (cases "rev (children l)") auto
    then have cs: "children l = rev x @ [child]"
      by (metis rev.simps(2) rev_rev_ident)
    define r1 where "r1 = set_children (set_mbr r (update_parent_mbr (mbr r) (mbr child))) (child # children r)"
    from True "1.prems" rv obtain l1 where
      rc: "recompute_node_mbr (set_children l (butlast (children l))) = Inr l1"
      and rec: "borrow_loop (i + 1) needed l1 r1 = Inr (l', r')"
      by (auto simp: r1_def Let_def split: sum.splits)
    from recompute_node_mbr_Inr [OF rc] cs
    have l1: "rev x \<noteq> []" "children l1 = rev x" "node_id l1 = node_id l"
      "children_are_leafs l1 = children_are_leafs l" "is_union (mbr l1) (map mbr (children l1))"
      by auto
    have l1I: "\<exists>a b c d. l1 = InternalNode a b c d"
      using rc by (auto simp: recompute_node_mbr_def set_mbr_def split: list.splits)
    have r1I: "\<exists>a b c d. r1 = InternalNode a b c d"
      by (simp add: r1_def set_children_def)
    have r1u: "is_union (mbr r) (map mbr (children r)) \<longrightarrow> is_union (mbr r1) (map mbr (children r1))"
      by (auto simp: r1_def intro: is_union_cons)
    from "1.IH" [OF True rv r1_def rc rec]
    have "(needed \<le> i + 1 \<and> l' = l1 \<and> r' = r1) \<or> borrowed (needed - (i + 1)) l1 r1 l' r'"
      by (simp add: r1_def)
    then show ?thesis
    proof
      assume a: "needed \<le> i + 1 \<and> l' = l1 \<and> r' = r1"
      with True have k: "needed - i = 1" by linarith
      have "borrowed 1 l r l' r'"
        unfolding borrowed_def using a l1 l1I r1I r1u cs
        by (auto simp: r1_def)
      with k show ?thesis by simp
    next
      assume b: "borrowed (needed - (i + 1)) l1 r1 l' r'"
      have "borrowed (needed - i) l r l' r'"
        using b l1 r1u cs True unfolding borrowed_def
        by (auto simp: r1_def Suc_diff_Suc take_Suc_conv_app_nth)
      then show ?thesis by simp
    qed
  qed
qed

lemma borrow_loop_failure: "borrow_loop i needed l r = Inl e \<Longrightarrow> e = EmptyVectorAccess"
proof (induction i needed l r rule: borrow_loop.induct)
  case (1 i needed l r)
  note [simp] = borrow_loop.simps [of i needed l r]
  show ?case
  proof (cases "i < needed")
    case False
    with "1.prems" show ?thesis by simp
  next
    case True
    show ?thesis
    proof (cases "rev (children l)")
      case Nil
      with True "1.prems" show ?thesis by simp
    next
      case (Cons child x)
      show ?thesis
      proof (cases "recompute_node_mbr (set_children l (butlast (children l)))")
        case (Inl e')
        with True Cons "1.prems" show ?thesis
          by (auto simp: recompute_node_mbr_def split: list.splits)
      next
        case (Inr l1)
        with True Cons "1.prems" "1.IH" [OF True Cons refl Inr] show ?thesis
          by (simp add: Let_def)
      qed
    qed
  qed
qed

lemma borrow_loop_too_many:
  assumes "i < needed" "length (children l) \<le> needed - i"
  shows "borrow_loop i needed l r = Inl EmptyVectorAccess"
proof (cases "borrow_loop i needed l r")
  case (Inl e)
  with borrow_loop_failure show ?thesis by blast
next
  case (Inr p)
  obtain l' r' where "p = (l', r')" by (cases p)
  with Inr borrow_loop_Inr [of i needed l r l' r'] assms show ?thesis
    by (auto simp: borrowed_def)
qed

lemma nth_group:
  assumes "i * 20 + 20 \<le> length nodes"
  shows "nodes ! (i * 20) # map (\<lambda>j. nodes ! (i * 20 + j)) [1..<20] = take 20 (drop (i * 20) nodes)"
proof -
  have "map (\<lambda>j. nodes ! (i * 20 + j)) [0..<20] = take 20 (drop (i * 20) nodes)"
    using assms by (intro nth_equalityI) auto
  moreover have "[0..<20] = 0 # [1..<20]"
    by (simp add: upt_conv_Cons)
  ultimately show ?thesis by simp
qed

lemma nth_rest:
  assumes "k < length nodes"
  shows "nodes ! k # map (\<lambda>i. nodes ! i) [k + 1..<length nodes] = drop k nodes"
proof -
  have "map (\<lambda>i. nodes ! i) [k..<length nodes] = drop k nodes"
    by (intro nth_equalityI) auto
  moreover have "[k..<length nodes] = k # [k + 1..<length nodes]"
    using assms by (simp add: upt_conv_Cons)
  ultimately show ?thesis by simp
qed

lemma concat_groups:
  "f * 20 \<le> length nodes \<Longrightarrow>
   concat (map (\<lambda>i. take 20 (drop (i * 20) nodes)) [0..<f]) = take (f * 20) nodes"
proof (induction f)
  case 0
  then show ?case by simp
next
  case (Suc f)
  then have "concat (map (\<lambda>i. take 20 (drop (i * 20) nodes)) [0..<f]) = take (f * 20) nodes"
    by simp
  moreover have "take (Suc f * 20) nodes = take (f * 20) nodes @ take 20 (drop (f * 20) nodes)"
    using take_add [of "f * 20" 20 nodes] by (simp add: add.commute)
  ultimately show ?case
    by simp
qed

text \<open>
  What a level returned by \<open>create_upper_level\<close> satisfies: the children of its nodes,
  in order, are the given nodes; every node carries the exact union of its children and
  the flag of the level; the ids count up from the counter; and with at least one full
  group every node has between 8 and 20 children.
\<close>

definition level_ok :: "node list \<Rightarrow> int \<Rightarrow> node list \<Rightarrow> int \<Rightarrow> bool" where
  "level_ok nodes id0 upper id1 \<longleftrightarrow>
     concat (map children upper) = nodes \<and>
     (\<forall>u \<in> set upper. (\<exists>a b c d. u = InternalNode a b c d) \<and>
        is_union (mbr u) (map mbr (children u)) \<and> children_are_leafs u = (id0 = 0)) \<and>
     map node_id upper = map (\<lambda>i. id0 + int i) [0..<length upper] \<and>
     id1 = id0 + int (length upper) \<and>
     length upper = (length nodes + 19) div 20 \<and>
     (20 \<le> length nodes \<longrightarrow>
        (\<forall>u \<in> set upper. 8 \<le> length (children u) \<and> length (children u) \<le> 20))"

lemma new_internal_node_simps [simp]:
  "node_id (new_internal_node nid lf c rest) = nid"
  "children_are_leafs (new_internal_node nid lf c rest) = lf"
  "children (new_internal_node nid lf c rest) = c # rest"
  by (simp_all add: new_internal_node_def)


lemma needed_children_cases:
  assumes "r < (20::nat)"
  shows "(2 ^ 64 + 8 - r) mod 2 ^ 64 = (if r \<le> 8 then 8 - r else 2 ^ 64 + 8 - r)"
proof (cases "r \<le> 8")
  case True
  then have "(2 ^ 64 + 8 - r :: nat) = (8 - r) + 2 ^ 64" by simp
  then have "(2 ^ 64 + 8 - r :: nat) mod 2 ^ 64 = (8 - r) mod 2 ^ 64"
    by (simp only: mod_add_self2)
  also have "\<dots> = 8 - r"
    by (rule mod_less) simp
  finally show ?thesis
    using True by (simp only: if_True)
next
  case False
  with assms have "(2 ^ 64 + 8 - r :: nat) < 2 ^ 64" by simp
  then have "(2 ^ 64 + 8 - r :: nat) mod 2 ^ 64 = 2 ^ 64 + 8 - r"
    by (rule mod_less)
  with False show ?thesis by (simp only: if_False)
qed


text \<open>
  Names for the node of the \<open>i\<close>-th full group and for the remainder node, and the
  definition of \<open>create_upper_level\<close> written with them.
\<close>

definition full_node :: "node list \<Rightarrow> int \<Rightarrow> nat \<Rightarrow> node" where
  "full_node nodes id0 i =
     new_internal_node (id0 + int i) (id0 = 0) (nodes ! (i * 20))
       (map (\<lambda>j. nodes ! (i * 20 + j)) [1..<20])"

definition remainder_node :: "node list \<Rightarrow> int \<Rightarrow> node" where
  "remainder_node nodes id0 =
     new_internal_node (id0 + int (length nodes div 20)) (id0 = 0)
       (nodes ! (length nodes div 20 * 20))
       (map (\<lambda>i. nodes ! i) [length nodes div 20 * 20 + 1..<length nodes])"

lemma create_upper_level_unfold:
  "create_upper_level nodes id0 =
    (if length nodes mod 20 \<noteq> 0 then
       (if (2 ^ 64 + 8 - length nodes mod 20) mod 2 ^ 64 > 0
            \<and> map (full_node nodes id0) [0..<length nodes div 20] \<noteq> [] then
          (case borrow_loop 0 ((2 ^ 64 + 8 - length nodes mod 20) mod 2 ^ 64)
                  (last (map (full_node nodes id0) [0..<length nodes div 20]))
                  (remainder_node nodes id0) of
             Inl e \<Rightarrow> Inl e
           | Inr (lf, wr) \<Rightarrow>
               Inr (butlast (map (full_node nodes id0) [0..<length nodes div 20]) @ [lf, wr],
                    id0 + int (length nodes div 20) + 1))
        else Inr (map (full_node nodes id0) [0..<length nodes div 20] @ [remainder_node nodes id0],
                  id0 + int (length nodes div 20) + 1))
     else Inr (map (full_node nodes id0) [0..<length nodes div 20],
               id0 + int (length nodes div 20)))"
  unfolding create_upper_level_def Let_def MAX_CHILDREN_PER_NODE_def
    MIN_CHILDREN_PER_NODE_def full_node_def [abs_def] remainder_node_def
  by simp

lemma create_upper_level_Inr:
  assumes res: "create_upper_level nodes id0 = Inr (upper, id1)"
  shows "level_ok nodes id0 upper id1"
proof -
  define f where "f = length nodes div 20"
  define r where "r = length nodes mod 20"
  define G where "G = full_node nodes id0"
  define U where "U = map G [0..<f]"
  define R where "R = remainder_node nodes id0"
  define needed :: nat where "needed = (2 ^ 64 + 8 - r) mod 2 ^ 64"
  define ok where "ok = (\<lambda>u k. (\<exists>a b c d. u = InternalNode a b c d) \<and>
      is_union (mbr u) (map mbr (children u)) \<and> children_are_leafs u = (id0 = 0) \<and>
      length (children u) = k)"
  have n: "length nodes = f * 20 + r" and r20: "r < 20"
    by (simp_all add: f_def r_def)
  have needed_eq: "needed = (if r \<le> 8 then 8 - r else 2 ^ 64 + 8 - r)"
    unfolding needed_def by (rule needed_children_cases [OF r20])
  have Gc: "children (G i) = take 20 (drop (i * 20) nodes)" if "i < f" for i
  proof -
    from that n have "i * 20 + 20 \<le> length nodes" by simp
    from nth_group [OF this] show ?thesis by (simp add: G_def full_node_def)
  qed
  have Gok: "ok (G i) 20" if "i < f" for i
  proof -
    have "is_union (mbr (G i)) (map mbr (children (G i)))"
      unfolding G_def full_node_def by (rule new_internal_node_union)
    moreover have "length (children (G i)) = 20"
      using Gc [OF that] that n by simp
    moreover have "\<exists>a b c d. G i = InternalNode a b c d"
      by (simp add: G_def full_node_def new_internal_node_def)
    moreover have "children_are_leafs (G i) = (id0 = 0)"
      by (simp add: G_def full_node_def)
    ultimately show ?thesis
      by (simp add: ok_def)
  qed
  have Rc: "children R = drop (f * 20) nodes" if "r \<noteq> 0"
  proof -
    from that n have "f * 20 < length nodes" by simp
    from nth_rest [OF this] show ?thesis by (simp add: R_def remainder_node_def f_def)
  qed
  have Ru: "is_union (mbr R) (map mbr (children R))"
    unfolding R_def remainder_node_def by (rule new_internal_node_union)
  have Rok: "ok R r" if "r \<noteq> 0"
  proof -
    have "length (children R) = r"
      using Rc [OF that] n by simp
    moreover have "\<exists>a b c d. R = InternalNode a b c d"
      by (simp add: R_def remainder_node_def new_internal_node_def)
    moreover have "children_are_leafs R = (id0 = 0)"
      by (simp add: R_def remainder_node_def f_def)
    ultimately show ?thesis
      using Ru by (simp add: ok_def)
  qed
  have "map children U = map (\<lambda>i. take 20 (drop (i * 20) nodes)) [0..<f]"
    by (simp add: U_def Gc)
  then have Uc: "concat (map children U) = take (f * 20) nodes"
    using concat_groups [of f nodes] n by simp
  have Uid: "map node_id U = map (\<lambda>i. id0 + int i) [0..<f]"
    by (simp add: U_def G_def full_node_def)
  have Ulen: "length U = f"
    by (simp add: U_def)
  have Uall: "ok u 20" if "u \<in> set U" for u
  proof -
    from that obtain i where i: "i < f" "u = G i"
      by (auto simp: U_def)
    with Gok show ?thesis by simp
  qed
  have unfold: "create_upper_level nodes id0 =
    (if r \<noteq> 0 then
       (if needed > 0 \<and> U \<noteq> [] then
          (case borrow_loop 0 needed (last U) R of
             Inl e \<Rightarrow> Inl e
           | Inr (lf, wr) \<Rightarrow> Inr (butlast U @ [lf, wr], id0 + int f + 1))
        else Inr (U @ [R], id0 + int f + 1))
     else Inr (U, id0 + int f))"
    unfolding f_def r_def G_def U_def R_def needed_def
    by (rule create_upper_level_unfold)
  have final: "level_ok nodes id0 upper id1"
    if cat: "concat (map children upper) = nodes"
      and ids: "map node_id upper = map (\<lambda>i. id0 + int i) [0..<length upper]"
      and id1: "id1 = id0 + int (length upper)"
      and len: "length upper = (length nodes + 19) div 20"
      and oks: "\<And>u. u \<in> set upper \<Longrightarrow> \<exists>k. ok u k \<and> (20 \<le> length nodes \<longrightarrow> 8 \<le> k \<and> k \<le> 20)"
  proof -
    have "(\<exists>a b c d. u = InternalNode a b c d) \<and>
        is_union (mbr u) (map mbr (children u)) \<and> children_are_leafs u = (id0 = 0)"
      and "20 \<le> length nodes \<longrightarrow> 8 \<le> length (children u) \<and> length (children u) \<le> 20"
      if "u \<in> set upper" for u
      using oks [OF that] by (auto simp: ok_def)
    with cat ids id1 len show ?thesis
      unfolding level_ok_def by blast
  qed
  show ?thesis
  proof (cases "r = 0")
    case True
    with res unfold have eq: "upper = U" "id1 = id0 + int f" by simp_all
    from True n have *: "take (f * 20) nodes = nodes" "(length nodes + 19) div 20 = f"
      by simp_all
    show ?thesis
    proof (rule final)
      show "concat (map children upper) = nodes" using Uc * eq by simp
      show "map node_id upper = map (\<lambda>i. id0 + int i) [0..<length upper]"
        using Uid Ulen eq by simp
      show "id1 = id0 + int (length upper)" using eq Ulen by simp
      show "length upper = (length nodes + 19) div 20" using eq Ulen * by simp
      show "\<exists>k. ok u k \<and> (20 \<le> length nodes \<longrightarrow> 8 \<le> k \<and> k \<le> 20)" if "u \<in> set upper" for u
        using Uall [of u] that eq by (intro exI [of _ 20]) simp
    qed
  next
    case rpos: False
    have len: "(length nodes + 19) div 20 = f + 1"
      using n rpos r20 by simp
    show ?thesis
    proof (cases "needed > 0 \<and> U \<noteq> []")
      case False
      with rpos res unfold have eq: "upper = U @ [R]" "id1 = id0 + int f + 1" by simp_all
      have r8: "r = 8" if "20 \<le> length nodes"
      proof -
        from that n r20 have "f \<noteq> 0" by auto
        with False Ulen have "needed = 0" by auto
        with r20 show ?thesis
          by (simp add: needed_eq split: if_splits)
      qed
      show ?thesis
      proof (rule final)
        show "concat (map children upper) = nodes"
          using Uc Rc [OF rpos] eq by simp
        show "map node_id upper = map (\<lambda>i. id0 + int i) [0..<length upper]"
          using Uid Ulen eq by (simp add: R_def remainder_node_def f_def)
        show "id1 = id0 + int (length upper)" using eq Ulen by simp
        show "length upper = (length nodes + 19) div 20" using eq Ulen len by simp
        show "\<exists>k. ok u k \<and> (20 \<le> length nodes \<longrightarrow> 8 \<le> k \<and> k \<le> 20)" if "u \<in> set upper" for u
        proof (cases "u = R")
          case True
          with Rok [OF rpos] r8 show ?thesis
            by (intro exI [of _ r]) simp
        next
          case False
          with that eq have "u \<in> set U" by simp
          from Uall [OF this] show ?thesis
            by (intro exI [of _ 20]) simp
        qed
      qed
    next
      case True
      with rpos res unfold obtain lf wr where
        bl: "borrow_loop 0 needed (last U) R = Inr (lf, wr)"
        and eq: "upper = butlast U @ [lf, wr]" "id1 = id0 + int f + 1"
        by (auto split: sum.splits)
      from borrow_loop_Inr [OF bl] True have b: "borrowed needed (last U) R lf wr"
        by auto
      from True have lastU: "last U \<in> set U" by simp
      from Uall [OF lastU] have lu: "ok (last U) 20" .
      then have lulen: "length (children (last U)) = 20"
        by (simp add: ok_def)
      from b lulen have nd: "0 < needed" "needed < 20"
        by (simp_all add: borrowed_def)
      have rle: "r \<le> 7" and needed8: "needed = 8 - r"
        using nd r20 by (simp_all add: needed_eq split: if_splits)
      have U_split: "U = butlast U @ [last U]"
        using True by simp
      have fpos: "0 < f"
        using True Ulen by auto
      have lenup: "length upper = f + 1"
        using eq Ulen fpos by simp
      from b have bI: "\<exists>a b c d. lf = InternalNode a b c d" "\<exists>a b c d. wr = InternalNode a b c d"
        and bu: "is_union (mbr lf) (map mbr (children lf))"
          "is_union (mbr R) (map mbr (children R)) \<longrightarrow> is_union (mbr wr) (map mbr (children wr))"
        and bf: "children_are_leafs lf = children_are_leafs (last U)"
          "children_are_leafs wr = children_are_leafs R"
        and bc: "children lf = take (length (children (last U)) - needed) (children (last U))"
          "children wr = drop (length (children (last U)) - needed) (children (last U)) @ children R"
        unfolding borrowed_def by blast+
      have Rr: "ok R r" by (rule Rok [OF rpos])
      have "length (children lf) = 20 - needed"
        using bc(1) lulen by simp
      with bI(1) bu(1) bf(1) lu have lf_ok: "ok lf (20 - needed)"
        unfolding ok_def by blast
      have "length (children wr) = needed + r"
        using bc(2) lulen nd Rr by (simp add: ok_def)
      with bI(2) bu(2) bf(2) Rr have wr_ok: "ok wr (needed + r)"
        unfolding ok_def by blast
      show ?thesis
      proof (rule final)
        have "children lf @ children wr = children (last U) @ children R"
          using b by (simp add: borrowed_def)
        then have "concat (map children (butlast U @ [lf, wr]))
                     = concat (map children (butlast U @ [last U])) @ children R"
          by simp
        with U_split Uc Rc [OF rpos] eq show "concat (map children upper) = nodes" by simp
        have "map node_id (butlast U @ [lf, wr]) = map node_id (butlast U @ [last U]) @ [node_id R]"
          using b by (simp add: borrowed_def)
        with U_split have "map node_id upper = map (\<lambda>i. id0 + int i) [0..<f] @ [id0 + int f]"
          using Uid eq by (simp add: R_def remainder_node_def f_def)
        with lenup show "map node_id upper = map (\<lambda>i. id0 + int i) [0..<length upper]"
          by simp
        show "id1 = id0 + int (length upper)" using eq lenup by simp
        show "length upper = (length nodes + 19) div 20" using lenup len by simp
        show "\<exists>k. ok u k \<and> (20 \<le> length nodes \<longrightarrow> 8 \<le> k \<and> k \<le> 20)" if "u \<in> set upper" for u
        proof -
          from that eq consider "u \<in> set (butlast U)" | "u = lf" | "u = wr"
            by auto
          then show ?thesis
          proof cases
            case 1
            then have "u \<in> set U" by (rule in_set_butlastD)
            from Uall [OF this] show ?thesis
              by (intro exI [of _ 20]) simp
          next
            case 2
            with lf_ok nd needed8 rle show ?thesis
              by (intro exI [of _ "20 - needed"]) simp
          next
            case 3
            with wr_ok nd needed8 rle show ?thesis
              by (intro exI [of _ "needed + r"]) simp
          qed
        qed
      qed
    qed
  qed
qed

lemma full_node_children:
  assumes "i < length nodes div 20"
  shows "children (full_node nodes id0 i) = take 20 (drop (i * 20) nodes)"
proof -
  from assms have "i * 20 + 20 \<le> length nodes div 20 * 20" by simp
  also have "\<dots> \<le> length nodes" by simp
  finally show ?thesis
    using nth_group [of i nodes] by (simp add: full_node_def)
qed

lemma create_upper_level_wraps:
  assumes "20 \<le> length nodes" "8 < length nodes mod 20"
  shows "create_upper_level nodes id0 = Inl EmptyVectorAccess"
proof -
  define U where "U = map (full_node nodes id0) [0..<length nodes div 20]"
  define needed :: nat where "needed = (2 ^ 64 + 8 - length nodes mod 20) mod 2 ^ 64"
  have r20: "length nodes mod 20 < 20" by simp
  from assms(1) have fpos: "0 < length nodes div 20"
    by (simp add: div_greater_zero_iff)
  then have U: "U \<noteq> []"
    by (simp add: U_def)
  have "needed = 2 ^ 64 + 8 - length nodes mod 20"
    unfolding needed_def using needed_children_cases [OF r20] assms(2) by simp
  with r20 have big: "20 \<le> needed" by simp
  have "last U = full_node nodes id0 (length nodes div 20 - 1)"
    using fpos by (simp add: U_def last_map last_upt)
  then have "length (children (last U)) = 20"
    using full_node_children [of "length nodes div 20 - 1" nodes id0] fpos assms(1)
    by (simp add: div_greater_zero_iff)
  with big have "borrow_loop 0 needed (last U) (remainder_node nodes id0) = Inl EmptyVectorAccess"
    by (intro borrow_loop_too_many) simp_all
  with U big assms(2) show ?thesis
    unfolding create_upper_level_unfold [of nodes id0] U_def [symmetric] needed_def [symmetric]
    by simp
qed

text \<open>
  Output of numbers to a stream: an \<open>int\<close> in decimal, and a \<open>double\<close> under
  \<open>std::fixed << std::setprecision(6)\<close>, that is the sign, the integer part and six
  decimals of the value rounded to the nearest multiple of \<open>10\<^sup>-\<^sup>6\<close> (a tie goes to the
  even neighbour; a negative value that rounds to zero keeps its sign). Then the three
  \<open>toString\<close> methods of \<open>Node.h\<close>; \<open>children_toString\<close> is the loop of
  \<open>InternalNode::toString\<close> that writes the children, separated by \<open>", "\<close>.
\<close>

definition digit_char :: "nat \<Rightarrow> char" where
  "digit_char d = ''0123456789'' ! d"

fun dec_digits :: "nat \<Rightarrow> string" where
  "dec_digits n = (if n < 10 then [digit_char n] else dec_digits (n div 10) @ [digit_char (n mod 10)])"

declare dec_digits.simps [simp del]

definition int_to_string :: "int \<Rightarrow> string" where
  "int_to_string i = (if i < 0 then CHR ''-'' # dec_digits (nat (- i)) else dec_digits (nat i))"

definition round_half_even :: "real \<Rightarrow> int" where
  "round_half_even x =
     (let f = \<lfloor>x\<rfloor>; r = x - of_int f
      in if r < 1 / 2 then f else if r > 1 / 2 then f + 1 else if even f then f else f + 1)"

definition fixed6 :: "real \<Rightarrow> string" where
  "fixed6 x =
     (let n = nat (round_half_even (\<bar>x\<bar> * 10 ^ 6));
          frac = dec_digits (n mod 10 ^ 6)
      in (if x < 0 then ''-'' else []) @ dec_digits (n div 10 ^ 6) @ ''.''
           @ replicate (6 - length frac) (CHR ''0'') @ frac)"

definition MBR_toString :: "MBR \<Rightarrow> string" where
  "MBR_toString m =
     ''['' @ fixed6 (x_low m) @ '', '' @ fixed6 (x_high m) @ '', ''
          @ fixed6 (y_low m) @ '', '' @ fixed6 (y_high m) @ '']''"

fun children_toString :: "node list \<Rightarrow> string" where
  "children_toString [] = []"
| "children_toString [c] = ''['' @ int_to_string (node_id c) @ '', '' @ MBR_toString (mbr c) @ '']''"
| "children_toString (c # cs) =
     ''['' @ int_to_string (node_id c) @ '', '' @ MBR_toString (mbr c) @ '']'' @ '', ''
       @ children_toString cs"

fun toString :: "node \<Rightarrow> string" where
  "toString (Node i m) = ''['' @ int_to_string i @ '', '' @ MBR_toString m @ '']''"
| "toString (InternalNode i m f cs) =
     ''['' @ (if f then ''0'' else ''1'') @ '', '' @ int_to_string i @ '', [''
         @ children_toString cs @ '']]''"

lemma create_upper_level_shorter:
  assumes "create_upper_level nodes id0 = Inr (upper, id1)" "1 < length nodes"
  shows "length upper < length nodes"
proof -
  from create_upper_level_Inr [OF assms(1)]
  have "length upper = (length nodes + 19) div 20"
    by (simp add: level_ok_def)
  with assms(2) show ?thesis by simp
qed

text \<open>
  \<open>build_tree\<close>: the loop runs while more than one node is left; every new level is
  written to \<open>Rtree.txt\<close>, one line per node. \<open>outfile\<close> is the list of the lines
  written. After the loop the code returns \<open>nodes.front()\<close> cast to \<open>InternalNode\<close>:
  a failure for no node at all, the null pointer for a single leaf.
\<close>

function build_loop :: "node list \<Rightarrow> int \<Rightarrow> string list \<Rightarrow> failure + (node list \<times> string list)" where
  "build_loop nodes node_id0 outfile =
     (if length nodes > 1 then
        (case create_upper_level nodes node_id0 of
           Inl e \<Rightarrow> Inl e
         | Inr (upper, node_id1) \<Rightarrow> build_loop upper node_id1 (outfile @ map toString upper))
      else Inr (nodes, outfile))"
  by pat_completeness auto
termination
  by (relation "measure (\<lambda>(nodes, i, out). length nodes)")
     (auto dest: create_upper_level_shorter)

declare build_loop.simps [simp del]

definition build_tree :: "node list \<Rightarrow> failure + (string list \<times> node option)" where
  "build_tree nodes =
     (case build_loop nodes 0 [] of
        Inl e \<Rightarrow> Inl e
      | Inr (final, outfile) \<Rightarrow>
          (case final of
             [] \<Rightarrow> Inl EmptyVectorAccess
           | front # _ \<Rightarrow>
               Inr (outfile, case front of InternalNode _ _ _ _ \<Rightarrow> Some front | Node _ _ \<Rightarrow> None)))"

text \<open>
  Notions of the specification: the fanout bounds at every internal node, and at every
  node below a root with at least one child.
\<close>

fun fanout_ok :: "node \<Rightarrow> bool" where
  "fanout_ok (Node i m) = True"
| "fanout_ok (InternalNode i m f cs) =
     (8 \<le> length cs \<and> length cs \<le> 20 \<and> (\<forall>c \<in> set cs. fanout_ok c))"

definition root_fanout_ok :: "node \<Rightarrow> bool" where
  "root_fanout_ok rt \<longleftrightarrow>
     1 \<le> length (children rt) \<and> (\<forall>c \<in> set (children rt). fanout_ok c)"

lemma level_children_subset:
  assumes "level_ok nodes id0 upper id1" "u \<in> set upper"
  shows "set (children u) \<subseteq> set nodes"
proof -
  from assms(1) have "concat (map children upper) = nodes"
    by (simp add: level_ok_def)
  then have "set nodes = (\<Union>v \<in> set upper. set (children v))"
    by (metis set_concat set_map image_image)
  with assms(2) show ?thesis by blast
qed

lemma level_mbr_exact:
  assumes "level_ok nodes id0 upper id1" "\<forall>n \<in> set nodes. mbr_exact n" "u \<in> set upper"
  shows "mbr_exact u"
proof -
  from assms(1,3) obtain a b c d where u: "u = InternalNode a b c d"
    and un: "is_union (mbr u) (map mbr (children u))"
    unfolding level_ok_def by blast
  from level_children_subset [OF assms(1,3)] assms(2) have "\<forall>c \<in> set (children u). mbr_exact c"
    by blast
  with u un show ?thesis by simp
qed

lemma level_fanout_ok:
  assumes "level_ok nodes id0 upper id1" "\<forall>n \<in> set nodes. fanout_ok n" "u \<in> set upper"
    "20 \<le> length nodes"
  shows "fanout_ok u"
proof -
  from assms(1,3) obtain a b c d where u: "u = InternalNode a b c d"
    unfolding level_ok_def by blast
  from assms(1,3,4) have "8 \<le> length (children u) \<and> length (children u) \<le> 20"
    unfolding level_ok_def by blast
  moreover from level_children_subset [OF assms(1,3)] assms(2)
  have "\<forall>c \<in> set (children u). fanout_ok c"
    by blast
  ultimately show ?thesis using u by simp
qed

lemma build_loop_mbr_exact:
  "build_loop nodes id0 out = Inr (final, out') \<Longrightarrow> \<forall>n \<in> set nodes. mbr_exact n \<Longrightarrow>
   \<forall>n \<in> set final. mbr_exact n"
proof (induction nodes id0 out rule: build_loop.induct)
  case (1 nodes id0 out)
  show ?case
  proof (cases "length nodes > 1")
    case False
    with "1.prems" show ?thesis
      by (simp add: build_loop.simps [of nodes])
  next
    case True
    with "1.prems"(1) obtain upper id1 where
      cu: "create_upper_level nodes id0 = Inr (upper, id1)"
      and rec: "build_loop upper id1 (out @ map toString upper) = Inr (final, out')"
      by (auto simp: build_loop.simps [of nodes] split: sum.splits)
    from level_mbr_exact [OF create_upper_level_Inr [OF cu] "1.prems"(2)]
    have "\<forall>n \<in> set upper. mbr_exact n" by blast
    from "1.IH" [OF True cu refl rec this] show ?thesis .
  qed
qed

lemma build_loop_fanout:
  "build_loop nodes id0 out = Inr (final, out') \<Longrightarrow> \<forall>n \<in> set nodes. fanout_ok n \<Longrightarrow>
   1 < length nodes \<Longrightarrow>
   \<exists>a b c d. final = [InternalNode a b c d] \<and> root_fanout_ok (InternalNode a b c d)"
proof (induction nodes id0 out rule: build_loop.induct)
  case (1 nodes id0 out)
  from "1.prems"(1,3) obtain upper id1 where
    cu: "create_upper_level nodes id0 = Inr (upper, id1)"
    and rec: "build_loop upper id1 (out @ map toString upper) = Inr (final, out')"
    by (auto simp: build_loop.simps [of nodes] split: sum.splits)
  note lv = create_upper_level_Inr [OF cu]
  then have len: "length upper = (length nodes + 19) div 20"
    by (simp add: level_ok_def)
  show ?case
  proof (cases "1 < length upper")
    case True
    with len have "20 \<le> length nodes" by simp
    with level_fanout_ok [OF lv "1.prems"(2)] have "\<forall>n \<in> set upper. fanout_ok n"
      by blast
    from "1.IH" [OF "1.prems"(3) cu refl rec this True] show ?thesis .
  next
    case False
    with len "1.prems"(3) have "length upper = 1" by simp
    then obtain u where up: "upper = [u]"
      by (cases upper) auto
    with lv obtain a b c d where u: "u = InternalNode a b c d"
      unfolding level_ok_def by auto
    from lv up have "children u = nodes"
      by (simp add: level_ok_def)
    with "1.prems"(2,3) have "root_fanout_ok u"
      by (simp add: root_fanout_ok_def)
    moreover from rec up have "final = [u]"
      by (simp add: build_loop.simps [of "[u]"])
    ultimately show ?thesis using u by simp
  qed
qed

section \<open>Deserialization (range_queries.cpp, k_nearest_neighbors.cpp)\<close>

text \<open>
  \<open>extract_numbers\<close>: the loop over the characters of the line, with the character
  before the current one (\<open>line[i-1]\<close>, none at \<open>i = 0\<close>), the token \<open>cur\<close> being
  collected and the tokens found so far.
\<close>

definition isdigit :: "char \<Rightarrow> bool" where
  "isdigit c \<longleftrightarrow> c \<in> set ''0123456789''"

fun extract_loop :: "char option \<Rightarrow> string \<Rightarrow> string \<Rightarrow> string list \<Rightarrow> string list" where
  "extract_loop prev [] cur numbers = (if cur \<noteq> [] then numbers @ [cur] else numbers)"
| "extract_loop prev (c # rest) cur numbers =
     (if isdigit c
         \<or> (c = CHR ''-'' \<and> (case prev of None \<Rightarrow> True | Some p \<Rightarrow> \<not> isdigit p))
         \<or> (c = CHR ''.'' \<and> cur \<noteq> [] \<and> isdigit (last cur))
      then extract_loop (Some c) rest (cur @ [c]) numbers
      else if cur \<noteq> [] then extract_loop (Some c) rest [] (numbers @ [cur])
      else extract_loop (Some c) rest cur numbers)"

definition extract_numbers :: "string \<Rightarrow> string list" where
  "extract_numbers line = extract_loop None line [] []"

text \<open>
  \<open>std::stoi\<close> and \<open>std::stod\<close> on a token of \<open>extract_numbers\<close>, which consists of
  digits, \<open>-\<close> and \<open>.\<close> only: an optional sign, then the longest run of digits (for
  \<open>stod\<close> with an optional point and further digits); \<open>std::invalid_argument\<close> when
  there is no digit, \<open>std::out_of_range\<close> when the value does not fit an \<open>int\<close>. The
  value of \<open>stod\<close> is the decimal number read, as a real.
\<close>

definition digit_val :: "char \<Rightarrow> nat" where
  "digit_val c = of_char c - 48"

definition digits_value :: "string \<Rightarrow> nat" where
  "digits_value ds = fold (\<lambda>c n. 10 * n + digit_val c) ds 0"

definition split_sign :: "string \<Rightarrow> bool \<times> string" where
  "split_sign s = (case s of c # t \<Rightarrow> if c = CHR ''-'' then (True, t) else (False, s) | [] \<Rightarrow> (False, s))"

definition stoi :: "string \<Rightarrow> failure + int" where
  "stoi s =
     (let (neg, body) = split_sign s;
          ds = takeWhile isdigit body
      in if ds = [] then Inl InvalidArgument
         else (let v = (if neg then - int (digits_value ds) else int (digits_value ds))
               in if v < - (2 ^ 31) \<or> 2 ^ 31 \<le> v then Inl OutOfRange else Inr v))"

definition stod :: "string \<Rightarrow> failure + real" where
  "stod s =
     (let (neg, body) = split_sign s;
          ip = takeWhile isdigit body;
          frac = (case dropWhile isdigit body of
                    c # t \<Rightarrow> if c = CHR ''.'' then takeWhile isdigit t else []
                  | [] \<Rightarrow> [])
      in if ip = [] \<and> frac = [] then Inl InvalidArgument
         else (let v = real (digits_value ip) + real (digits_value frac) / 10 ^ length frac
               in Inr (if neg then - v else v)))"

text \<open>
  \<open>build_tree_from_file\<close>, on the lines of the file. \<open>at_index\<close> is \<open>numbers[i]\<close>,
  a failure past the end. \<open>read_children\<close> is the loop
  \<open>for (int i = 2; i < numbers.size(); i += 5)\<close>: a leaf child is made from the five
  tokens; another child is looked up with \<open>id_to_node.find\<close> and \<open>child_it->second\<close> is
  read with no test against \<open>end()\<close>. \<open>read_node\<close> is one round of the loop over the
  lines, \<open>read_lines\<close> the loop with the map \<open>id_to_node\<close> and the pointer \<open>root\<close>
  (the value \<open>None\<close> is the null pointer, returned for a file without lines). Both
  copies of the function read the same tokens into the same fields; the copy in
  \<open>k_nearest_neighbors.cpp\<close> converts the token at \<open>i + 3\<close> before the one at \<open>i + 2\<close>.
\<close>

definition bind_failure :: "failure + 'a \<Rightarrow> ('a \<Rightarrow> failure + 'b) \<Rightarrow> failure + 'b" where
  "bind_failure r k = (case r of Inl e \<Rightarrow> Inl e | Inr v \<Rightarrow> k v)"

definition at_index :: "'a list \<Rightarrow> nat \<Rightarrow> failure + 'a" where
  "at_index xs i = (if i < length xs then Inr (xs ! i) else Inl IndexOutOfRange)"

function read_children :: "string list \<Rightarrow> bool \<Rightarrow> (int \<rightharpoonup> node) \<Rightarrow> nat \<Rightarrow> node list \<Rightarrow> failure + node list" where
  "read_children numbers is_leaf id_to_node i cs =
     (if i < length numbers then
        bind_failure (stoi (numbers ! i)) (\<lambda>child_id.
        bind_failure (bind_failure (at_index numbers (i + 1)) stod) (\<lambda>xl.
        bind_failure (bind_failure (at_index numbers (i + 2)) stod) (\<lambda>xh.
        bind_failure (bind_failure (at_index numbers (i + 3)) stod) (\<lambda>yl.
        bind_failure (bind_failure (at_index numbers (i + 4)) stod) (\<lambda>yh.
        bind_failure
          (if is_leaf then Inr (Node child_id \<lparr>x_low = xl, y_low = yl, x_high = xh, y_high = yh\<rparr>)
           else (case id_to_node child_id of
                   None \<Rightarrow> Inl EndIteratorDereference
                 | Some child \<Rightarrow> Inr child))
          (\<lambda>child. read_children numbers is_leaf id_to_node (i + 5) (cs @ [child])))))))
      else Inr cs)"
  by pat_completeness auto
termination
  by (relation "measure (\<lambda>(numbers, l, m, i, cs). length numbers - i)") auto

declare read_children.simps [simp del]

definition read_node :: "(int \<rightharpoonup> node) \<Rightarrow> string \<Rightarrow> failure + node" where
  "read_node id_to_node line =
     (let numbers = extract_numbers line in
      bind_failure (at_index numbers 0) (\<lambda>flag.
      bind_failure (bind_failure (at_index numbers 1) stoi) (\<lambda>nid.
      bind_failure (read_children numbers (flag = ''0'') id_to_node 2 []) (\<lambda>cs.
      recompute_node_mbr
        (InternalNode nid \<lparr>x_low = 0, y_low = 0, x_high = 0, y_high = 0\<rparr> (flag = ''0'') cs)))))"

fun read_lines :: "(int \<rightharpoonup> node) \<Rightarrow> node option \<Rightarrow> string list \<Rightarrow> failure + node option" where
  "read_lines id_to_node rt [] = Inr rt"
| "read_lines id_to_node rt (line # rest) =
     (case read_node id_to_node line of
        Inl e \<Rightarrow> Inl e
      | Inr internal_node \<Rightarrow>
          read_lines (id_to_node(node_id internal_node \<mapsto> internal_node)) (Some internal_node) rest)"

definition build_tree_from_file :: "string list \<Rightarrow> failure + node option" where
  "build_tree_from_file lines = read_lines Map.empty None lines"

section \<open>Invariants of the built and of the reconstructed tree\<close>

lemma read_children_exact:
  "read_children numbers is_leaf m i cs = Inr cs' \<Longrightarrow>
   \<forall>n \<in> ran m. mbr_exact n \<Longrightarrow> \<forall>c \<in> set cs. mbr_exact c \<Longrightarrow> \<forall>c \<in> set cs'. mbr_exact c"
proof (induction numbers is_leaf m i cs rule: read_children.induct)
  case (1 numbers is_leaf m i cs)
  show ?case
  proof (cases "i < length numbers")
    case False
    with "1.prems" show ?thesis
      by (simp add: read_children.simps [of numbers is_leaf m i cs])
  next
    case True
    from True "1.prems"(1) obtain child_id xl xh yl yh child where
      st: "stoi (numbers ! i) = Inr child_id"
      and ch: "(if is_leaf then Inr (Node child_id \<lparr>x_low = xl, y_low = yl, x_high = xh, y_high = yh\<rparr>)
           else (case m child_id of
                   None \<Rightarrow> Inl EndIteratorDereference
                 | Some child \<Rightarrow> Inr child)) = Inr child"
      and rec: "read_children numbers is_leaf m (i + 5) (cs @ [child]) = Inr cs'"
      by (auto simp: read_children.simps [of numbers is_leaf m i cs] bind_failure_def
          split: sum.splits)
    from ch "1.prems"(2) have "mbr_exact child"
      by (auto simp: ran_def split: if_splits option.splits)
    with "1.prems"(3) have "\<forall>c \<in> set (cs @ [child]). mbr_exact c" by simp
    from "1.IH" [OF True rec "1.prems"(2) this] show ?thesis .
  qed
qed


lemma read_node_exact:
  assumes "read_node m line = Inr n" "\<forall>c \<in> ran m. mbr_exact c"
  shows "mbr_exact n"
proof -
  from assms(1) obtain flag nid cs where
    rc: "read_children (extract_numbers line) (flag = ''0'') m 2 [] = Inr cs"
    and rn: "recompute_node_mbr
        (InternalNode nid \<lparr>x_low = 0, y_low = 0, x_high = 0, y_high = 0\<rparr> (flag = ''0'') cs) = Inr n"
    by (auto simp: read_node_def Let_def bind_failure_def split: sum.splits)
  from read_children_exact [OF rc assms(2)] have cs: "\<forall>c \<in> set cs. mbr_exact c"
    by simp
  from recompute_node_mbr_Inr [OF rn] have "is_union (mbr n) (map mbr cs)" "children n = cs"
    by simp_all
  moreover from rn obtain a b c d where "n = InternalNode a b c d"
    by (auto simp: recompute_node_mbr_def set_mbr_def split: list.splits)
  ultimately show ?thesis
    using cs by simp
qed

lemma read_lines_exact:
  "read_lines m rt lines = Inr (Some r) \<Longrightarrow> \<forall>c \<in> ran m. mbr_exact c \<Longrightarrow>
   (\<forall>x. rt = Some x \<longrightarrow> mbr_exact x) \<Longrightarrow> mbr_exact r"
proof (induction lines arbitrary: m rt)
  case Nil
  then show ?case by simp
next
  case (Cons line lines)
  from Cons.prems(1) obtain n where n: "read_node m line = Inr n"
    and rec: "read_lines (m(node_id n \<mapsto> n)) (Some n) lines = Inr (Some r)"
    by (auto split: sum.splits)
  from read_node_exact [OF n Cons.prems(2)] have ex: "mbr_exact n" .
  with Cons.prems(2) have "\<forall>c \<in> ran (m(node_id n \<mapsto> n)). mbr_exact c"
    by (auto simp: ran_def)
  from Cons.IH [OF rec this] ex show ?case by simp
qed

lemma build_leaf_nodes_exact: "\<forall>n \<in> set (build_leaf_nodes entries). mbr_exact n"
  by (auto simp: build_leaf_nodes_def)

lemma build_tree_Some:
  assumes "build_tree nodes = Inr (outfile, Some rt)"
  shows "\<exists>final. build_loop nodes 0 [] = Inr (rt # final, outfile) \<and> (\<exists>a b c d. rt = InternalNode a b c d)"
  using assms
  by (auto simp: build_tree_def split: sum.splits list.splits node.splits)

text \<open>
  C5. The root returned by the bulk loader, and the root reconstructed by the deserializer,
  satisfy at every internal node: the MBR is the exact union of the children's MBRs
  (lowest low and highest high coordinate on each axis). The same holds for every node of
  a level that \<open>create_upper_level\<close> returns, the donor and the recipient of the
  remainder-borrowing step included.
\<close>

theorem internal_mbr_exact_union:
  "(build_tree (build_leaf_nodes entries) = Inr (outfile, Some rt) \<longrightarrow> mbr_exact rt)
   \<and> (build_tree_from_file lines = Inr (Some rt') \<longrightarrow> mbr_exact rt')
   \<and> (create_upper_level nodes id0 = Inr (upper, id1) \<longrightarrow>
        (\<forall>u \<in> set upper. is_union (mbr u) (map mbr (children u))))"
proof (intro conjI impI)
  assume "build_tree (build_leaf_nodes entries) = Inr (outfile, Some rt)"
  from build_tree_Some [OF this] obtain final where
    "build_loop (build_leaf_nodes entries) 0 [] = Inr (rt # final, outfile)"
    by blast
  from build_loop_mbr_exact [OF this build_leaf_nodes_exact] show "mbr_exact rt"
    by simp
next
  assume "build_tree_from_file lines = Inr (Some rt')"
  then have "read_lines Map.empty None lines = Inr (Some rt')"
    by (simp add: build_tree_from_file_def)
  from read_lines_exact [OF this] show "mbr_exact rt'"
    by simp
next
  assume "create_upper_level nodes id0 = Inr (upper, id1)"
  from create_upper_level_Inr [OF this]
  show "\<forall>u \<in> set upper. is_union (mbr u) (map mbr (children u))"
    by (simp add: level_ok_def)
qed

lemma build_leaf_nodes_fanout: "\<forall>n \<in> set (build_leaf_nodes entries). fanout_ok n"
  by (auto simp: build_leaf_nodes_def)

text \<open>
  C4. In the tree returned by the bulk loader every internal node below the root has
  between 8 and 20 children, and the root has at least one child. The remainder
  group that is the first and only group of its level is the only node of that level, so
  the loop of \<open>build_tree\<close> stops there and that node is the root: the edge case never
  concerns a node below the root.
\<close>

theorem build_tree_fanout:
  assumes "build_tree (build_leaf_nodes entries) = Inr (outfile, Some rt)"
  shows "root_fanout_ok rt"
proof -
  from build_tree_Some [OF assms] obtain final where
    bl: "build_loop (build_leaf_nodes entries) 0 [] = Inr (rt # final, outfile)"
    and rt: "\<exists>a b c d. rt = InternalNode a b c d"
    by blast
  have "1 < length (build_leaf_nodes entries)"
  proof (rule ccontr)
    assume "\<not> 1 < length (build_leaf_nodes entries)"
    with bl have "rt # final = build_leaf_nodes entries"
      by (simp add: build_loop.simps [of "build_leaf_nodes entries"])
    then have "rt \<in> set (build_leaf_nodes entries)"
      by (metis list.set_intros(1))
    with rt show False
      by (auto simp: build_leaf_nodes_def)
  qed
  from build_loop_fanout [OF bl build_leaf_nodes_fanout this] show ?thesis
    by auto
qed


definition example_entries :: "Entry list" where
  "example_entries =
     map (\<lambda>i. \<lparr>entry_id = int i,
               entry_mbr = \<lparr>x_low = real i, y_low = 0, x_high = real i + 1, y_high = 1\<rparr>,
               z_value = []\<rparr>) [0..<27]"

lemma borrow_loop_succeeds:
  "needed - i < length (children l) \<Longrightarrow> \<exists>l' r'. borrow_loop i needed l r = Inr (l', r')"
proof (induction i needed l r rule: borrow_loop.induct)
  case (1 i needed l r)
  note [simp] = borrow_loop.simps [of i needed l r]
  show ?case
  proof (cases "i < needed")
    case False
    then show ?thesis by simp
  next
    case True
    with "1.prems" have len: "2 \<le> length (children l)" by simp
    then obtain child x where rv: "rev (children l) = child # x"
      by (cases "rev (children l)") auto
    from len have "children (set_children l (butlast (children l))) \<noteq> []"
      by (cases "children l" rule: rev_cases) auto
    from recompute_node_mbr_nonempty [OF this] obtain l1 where
      rc: "recompute_node_mbr (set_children l (butlast (children l))) = Inr l1"
      by blast
    from recompute_node_mbr_Inr [OF rc] have "length (children l1) = length (children l) - 1"
      by simp
    with "1.prems" True have "needed - (i + 1) < length (children l1)"
      by simp
    from "1.IH" [OF True rv refl rc this] rv rc True show ?thesis
      by (simp add: Let_def)
  qed
qed

lemma create_upper_level_succeeds:
  assumes "length nodes < 20 \<or> length nodes mod 20 \<le> 8"
  shows "\<exists>upper id1. create_upper_level nodes id0 = Inr (upper, id1)"
proof -
  define U where "U = map (full_node nodes id0) [0..<length nodes div 20]"
  define needed :: nat where "needed = (2 ^ 64 + 8 - length nodes mod 20) mod 2 ^ 64"
  show ?thesis
  proof (cases "length nodes mod 20 \<noteq> 0 \<and> needed > 0 \<and> U \<noteq> []")
    case False
    then show ?thesis
      unfolding create_upper_level_unfold [of nodes id0] U_def needed_def
      by auto
  next
    case True
    then have fpos: "0 < length nodes div 20"
      by (auto simp: U_def)
    then have "20 \<le> length nodes"
      by (simp add: div_greater_zero_iff)
    with assms have r8: "length nodes mod 20 \<le> 8" by simp
    have "length nodes mod 20 < 20" by simp
    from needed_children_cases [OF this] r8 have "needed = 8 - length nodes mod 20"
      by (simp add: needed_def)
    then have small: "needed < 20" by simp
    have "last U = full_node nodes id0 (length nodes div 20 - 1)"
      using fpos by (simp add: U_def last_map)
    then have "length (children (last U)) = 20"
      using full_node_children [of "length nodes div 20 - 1" nodes id0] fpos
      by simp
    with small have "needed - 0 < length (children (last U))" by simp
    from borrow_loop_succeeds [OF this] obtain l' r' where
      "borrow_loop 0 needed (last U) (remainder_node nodes id0) = Inr (l', r')"
      by blast
    with True show ?thesis
      unfolding create_upper_level_unfold [of nodes id0] U_def [symmetric] needed_def [symmetric]
      by simp
  qed
qed

text \<open>
  The numbers of nodes on which the loop of \<open>build_tree\<close> runs to its end: at every
  level with more than one node, either there is no full group or the remainder has at
  most 8 nodes.
\<close>

function loadable :: "nat \<Rightarrow> bool" where
  "loadable n =
     (if 1 < n then (n < 20 \<or> n mod 20 \<le> 8) \<and> loadable ((n + 19) div 20) else True)"
  by pat_completeness auto
termination
  by (relation "measure (\<lambda>n. n)") auto

declare loadable.simps [simp del]

lemma build_loop_succeeds:
  "loadable (length nodes) \<Longrightarrow> \<exists>final out'. build_loop nodes id0 out = Inr (final, out')"
proof (induction nodes id0 out rule: build_loop.induct)
  case (1 nodes id0 out)
  show ?case
  proof (cases "1 < length nodes")
    case False
    then show ?thesis
      by (simp add: build_loop.simps [of nodes])
  next
    case True
    with "1.prems" have ok: "length nodes < 20 \<or> length nodes mod 20 \<le> 8"
      and rest: "loadable ((length nodes + 19) div 20)"
      by (simp_all add: loadable.simps [of "length nodes"])
    from create_upper_level_succeeds [OF ok] obtain upper id1 where
      cu: "create_upper_level nodes id0 = Inr (upper, id1)"
      by blast
    from create_upper_level_Inr [OF cu] have "length upper = (length nodes + 19) div 20"
      by (simp add: level_ok_def)
    with rest have "loadable (length upper)" by simp
    from "1.IH" [OF True cu refl this] True cu show ?thesis
      by (simp add: build_loop.simps [of nodes])
  qed
qed

lemma build_loop_final_length:
  "build_loop nodes id0 out = Inr (final, out') \<Longrightarrow> length final = min 1 (length nodes)"
proof (induction nodes id0 out rule: build_loop.induct)
  case (1 nodes id0 out)
  show ?case
  proof (cases "1 < length nodes")
    case False
    with "1.prems" show ?thesis
      by (auto simp: build_loop.simps [of nodes])
  next
    case True
    with "1.prems" obtain upper id1 where
      cu: "create_upper_level nodes id0 = Inr (upper, id1)"
      and rec: "build_loop upper id1 (out @ map toString upper) = Inr (final, out')"
      by (auto simp: build_loop.simps [of nodes] split: sum.splits)
    from create_upper_level_Inr [OF cu] True have "1 \<le> length upper"
      by (simp add: level_ok_def)
    with "1.IH" [OF True cu refl rec] True show ?thesis by simp
  qed
qed

lemma build_loop_final_internal:
  "build_loop nodes id0 out = Inr (final, out') \<Longrightarrow> 1 < length nodes \<Longrightarrow>
   \<forall>n \<in> set final. \<exists>a b c d. n = InternalNode a b c d"
proof (induction nodes id0 out rule: build_loop.induct)
  case (1 nodes id0 out)
  from "1.prems" obtain upper id1 where
    cu: "create_upper_level nodes id0 = Inr (upper, id1)"
    and rec: "build_loop upper id1 (out @ map toString upper) = Inr (final, out')"
    by (auto simp: build_loop.simps [of nodes] split: sum.splits)
  from create_upper_level_Inr [OF cu] have up: "\<forall>n \<in> set upper. \<exists>a b c d. n = InternalNode a b c d"
    by (simp add: level_ok_def)
  show ?case
  proof (cases "1 < length upper")
    case True
    from "1.IH" [OF "1.prems"(2) cu refl rec True] show ?thesis .
  next
    case False
    with rec have "final = upper"
      by (simp add: build_loop.simps [of upper])
    with up show ?thesis by simp
  qed
qed

lemma build_tree_succeeds:
  assumes "loadable (length nodes)" "1 < length nodes"
  shows "\<exists>outfile rt. build_tree nodes = Inr (outfile, Some rt)"
proof -
  from build_loop_succeeds [OF assms(1)] obtain final out' where
    bl: "build_loop nodes 0 [] = Inr (final, out')"
    by blast
  from build_loop_final_length [OF bl] assms(2) obtain front where f: "final = [front]"
    by (cases final) auto
  with build_loop_final_internal [OF bl assms(2)] obtain a b c d where
    "front = InternalNode a b c d" by auto
  with bl f show ?thesis
    by (simp add: build_tree_def)
qed

lemma example_entries_length: "length (build_leaf_nodes example_entries) = 27"
  by (simp add: build_leaf_nodes_def example_entries_def)

lemma loadable_27: "loadable 27"
  by (simp add: loadable.simps [of 27] loadable.simps [of 2] loadable.simps [of "Suc 0"])

theorem build_tree_fanout_witness:
  "\<exists>outfile rt. build_tree (build_leaf_nodes example_entries) = Inr (outfile, Some rt)
      \<and> root_fanout_ok rt"
proof -
  from build_tree_succeeds [of "build_leaf_nodes example_entries"] loadable_27
  obtain outfile rt where
    b: "build_tree (build_leaf_nodes example_entries) = Inr (outfile, Some rt)"
    by (auto simp: example_entries_length)
  from build_tree_fanout [OF b] b show ?thesis by blast
qed


definition example_file :: "string list" where
  "example_file =
     [''[0, 0, [[5, [0.000000, 1.500000, 0.000000, 1.000000]], [6, [-1.000000, 0.500000, 0.250000, 1.000000]]]]'',
      ''[1, 1, [[0, [-1.000000, 1.500000, 0.000000, 1.000000]]]]'']"

lemma example_file_read:
  "build_tree_from_file example_file =
     Inr (Some (InternalNode 1 \<lparr>x_low = - 1, y_low = 0, x_high = 3 / 2, y_high = 1\<rparr> False
                 [InternalNode 0 \<lparr>x_low = - 1, y_low = 0, x_high = 3 / 2, y_high = 1\<rparr> True
                    [Node 5 \<lparr>x_low = 0, y_low = 0, x_high = 3 / 2, y_high = 1\<rparr>,
                     Node 6 \<lparr>x_low = - 1, y_low = 1 / 4, x_high = 1 / 2, y_high = 1\<rparr>]]))"
  by (simp add: example_file_def build_tree_from_file_def read_node_def extract_numbers_def
      isdigit_def bind_failure_def at_index_def stoi_def stod_def split_sign_def digits_value_def
      digit_val_def read_children.simps recompute_node_mbr_def update_parent_mbr_def set_mbr_def)

theorem internal_mbr_exact_union_witness:
  "(\<exists>outfile rt. build_tree (build_leaf_nodes example_entries) = Inr (outfile, Some rt)
        \<and> mbr_exact rt)
   \<and> (\<exists>rt'. build_tree_from_file example_file = Inr (Some rt') \<and> mbr_exact rt')
   \<and> (\<exists>upper id1. create_upper_level (build_leaf_nodes example_entries) 0 = Inr (upper, id1)
        \<and> (\<forall>u \<in> set upper. is_union (mbr u) (map mbr (children u))))"
proof -
  from build_tree_succeeds [of "build_leaf_nodes example_entries"] loadable_27
  obtain outfile rt where
    b: "build_tree (build_leaf_nodes example_entries) = Inr (outfile, Some rt)"
    by (auto simp: example_entries_length)
  from example_file_read obtain rt' where
    f: "build_tree_from_file example_file = Inr (Some rt')"
    by blast
  from create_upper_level_succeeds [of "build_leaf_nodes example_entries" 0]
  obtain upper id1 where
    c: "create_upper_level (build_leaf_nodes example_entries) 0 = Inr (upper, id1)"
    by (auto simp: example_entries_length)
  from internal_mbr_exact_union
    [of example_entries outfile rt example_file rt' "build_leaf_nodes example_entries" 0 upper id1]
    b f c
  show ?thesis by blast
qed

text \<open>
  C3. With one full group and a remainder of 15 nodes (35 nodes in all) no child has to
  move, since \<open>15 \<ge> 8\<close>. In the code \<open>needed_children\<close> is a \<open>size_t\<close>:
  \<open>8 - 15\<close> wraps to \<open>2^64 - 7\<close>, the test \<open>needed_children > 0\<close> succeeds and the
  borrowing loop empties the full sibling; the twentieth round reads \<open>children[0]\<close> of
  the emptied vector in \<open>recompute_node_mbr\<close>.
\<close>

theorem create_upper_level_remainder_15:
  "create_upper_level
     (map (\<lambda>i. Node (int i) \<lparr>x_low = real i, y_low = 0, x_high = real i + 1, y_high = 1\<rparr>)
        [0..<35]) 0
   = Inl EmptyVectorAccess"
  by (rule create_upper_level_wraps) simp_all

text \<open>
  C8. A tree file whose only line is an internal node with non-leaf children and the child
  id 5: the id is not in the id-to-node map, \<open>find\<close> returns the end iterator and the
  code reads \<open>child_it->second\<close> without a test. There is no check, no error value and
  no message on this path.
\<close>

theorem build_tree_from_file_unseen_child:
  "build_tree_from_file [''[1, 0, [[5, [0.000000, 1.000000, 0.000000, 1.000000]]]]'']
   = Inl EndIteratorDereference"
  by (simp add: build_tree_from_file_def read_node_def extract_numbers_def isdigit_def
      bind_failure_def at_index_def stoi_def stod_def split_sign_def digits_value_def digit_val_def
      read_children.simps)

section \<open>k nearest neighbours (k_nearest_neighbors.cpp)\<close>

text \<open>
  \<open>PQEntry\<close> and the queue \<open>std::priority_queue<PQEntry, std::vector<PQEntry>,
  std::greater<>>\<close>. The queue is a library object: its state is the underlying vector,
  and \<open>push\<close>, \<open>top\<close> and \<open>pop\<close> are taken as parameters that meet the contract of
  the library, \<open>std_priority_queue\<close>: on vectors the library keeps in heap order
  (\<open>heap\<close>), \<open>push\<close> adds the entry, \<open>top\<close> is an entry of the queue such that no
  entry has a smaller distance, and \<open>pop\<close> removes that entry. Which of several
  entries of equal distance comes first is left to the library, and no statement below
  depends on it.
\<close>

record PQEntry =
  node :: node
  distance :: real

definition std_priority_queue ::
  "(PQEntry list \<Rightarrow> bool) \<Rightarrow> (PQEntry \<Rightarrow> PQEntry list \<Rightarrow> PQEntry list) \<Rightarrow>
   (PQEntry list \<Rightarrow> PQEntry) \<Rightarrow> (PQEntry list \<Rightarrow> PQEntry list) \<Rightarrow> bool" where
  "std_priority_queue heap pq_push pq_top pq_pop \<longleftrightarrow>
     heap [] \<and>
     (\<forall>e q. heap q \<longrightarrow> heap (pq_push e q) \<and> mset (pq_push e q) = add_mset e (mset q)) \<and>
     (\<forall>q. heap q \<and> q \<noteq> [] \<longrightarrow>
        pq_top q \<in> set q \<and> (\<forall>e \<in> set q. distance (pq_top q) \<le> distance e) \<and>
        heap (pq_pop q) \<and> mset (pq_pop q) = mset q - {#pq_top q#})"

definition static_cast_size_t :: "int \<Rightarrow> nat" where
  "static_cast_size_t k = nat (k mod 2 ^ 64)"

text \<open>
  The body of the \<open>while\<close> loop over the queue in \<open>run_kn_queries\<close>, for one query
  point \<open>(x, y)\<close>. The loop has no bound in the code, so it is a partial function: the
  value \<open>None\<close> stands for a run without end. \<open>k\<close> is a C++ \<open>int\<close> compared as
  \<open>static_cast<size_t>(k)\<close>.
\<close>

partial_function (option) knn_loop ::
  "(PQEntry \<Rightarrow> PQEntry list \<Rightarrow> PQEntry list) \<Rightarrow> (PQEntry list \<Rightarrow> PQEntry) \<Rightarrow>
   (PQEntry list \<Rightarrow> PQEntry list) \<Rightarrow> real \<Rightarrow> real \<Rightarrow> int \<Rightarrow>
   PQEntry list \<Rightarrow> int list \<Rightarrow> int list option" where
  "knn_loop pq_push pq_top pq_pop x y k pq kn_leaf_ids =
     (if pq \<noteq> [] \<and> length kn_leaf_ids < static_cast_size_t k then
        (let entry = pq_top pq; pq1 = pq_pop pq
         in case node entry of
              InternalNode _ _ _ cs \<Rightarrow>
                knn_loop pq_push pq_top pq_pop x y k
                  (fold (\<lambda>child q. pq_push \<lparr>node = child, distance = min_dist (mbr child) x y\<rparr> q) cs pq1)
                  kn_leaf_ids
            | Node i _ \<Rightarrow> knn_loop pq_push pq_top pq_pop x y k pq1 (kn_leaf_ids @ [i]))
      else Some kn_leaf_ids)"

text \<open>
  One query of \<open>run_kn_queries\<close>: the queue starts with the root and its distance. The
  code reads \<open>root->mbr\<close> without a test, a null root is a null pointer dereference.
\<close>

definition run_kn_query ::
  "(PQEntry \<Rightarrow> PQEntry list \<Rightarrow> PQEntry list) \<Rightarrow> (PQEntry list \<Rightarrow> PQEntry) \<Rightarrow>
   (PQEntry list \<Rightarrow> PQEntry list) \<Rightarrow> node option \<Rightarrow> real \<Rightarrow> real \<Rightarrow> int \<Rightarrow>
   (failure + int list) option" where
  "run_kn_query pq_push pq_top pq_pop rt x y k =
     (case rt of
        None \<Rightarrow> Some (Inl NullPointerDereference)
      | Some r \<Rightarrow>
          map_option Inr
            (knn_loop pq_push pq_top pq_pop x y k (pq_push \<lparr>node = r, distance = min_dist (mbr r) x y\<rparr> []) []))"


text \<open>
  Notions for the statements: the data-model invariant of a rectangle, the leaves still to
  be found below the entries of a queue, and the number of nodes below them (the measure
  that decreases in every round of the loop).
\<close>

definition valid_mbr :: "MBR \<Rightarrow> bool" where
  "valid_mbr m \<longleftrightarrow> x_low m \<le> x_high m \<and> y_low m \<le> y_high m"

definition leaves_valid :: "node \<Rightarrow> bool" where
  "leaves_valid t \<longleftrightarrow> (\<forall>l \<in> set (leaves t). valid_mbr (mbr l))"

fun node_count :: "node \<Rightarrow> nat" where
  "node_count (Node i m) = 1"
| "node_count (InternalNode i m f cs) = 1 + sum_list (map node_count cs)"

definition pending :: "PQEntry list \<Rightarrow> node multiset" where
  "pending pq = (\<Sum>e \<in># mset pq. mset (leaves (node e)))"

definition weight :: "PQEntry list \<Rightarrow> nat" where
  "weight pq = (\<Sum>e \<in># mset pq. node_count (node e))"

lemma min_dist_lower_bound:
  assumes "valid_mbr m" "inside m px py"
  shows "min_dist m qx qy \<le> euclid qx qy px py"
proof -
  from assms have v: "x_low m \<le> x_high m" "y_low m \<le> y_high m"
    by (simp_all add: valid_mbr_def)
  from assms(2) have "(qx - clamp (x_low m) (x_high m) qx)\<^sup>2 \<le> (qx - px)\<^sup>2"
    and "(qy - clamp (y_low m) (y_high m) qy)\<^sup>2 \<le> (qy - py)\<^sup>2"
    by (auto simp: inside_def intro: clamp_nearest)
  then show ?thesis
    unfolding min_dist_clamp [OF v] euclid_def by (intro real_sqrt_le_mono add_mono)
qed

lemma min_dist_mono:
  assumes "mbr_contains p c" "valid_mbr c"
  shows "min_dist p qx qy \<le> min_dist c qx qy"
proof -
  from assms have vc: "x_low c \<le> x_high c" "y_low c \<le> y_high c"
    by (simp_all add: valid_mbr_def)
  from assms have vp: "valid_mbr p"
    by (auto simp: valid_mbr_def mbr_contains_def)
  have "inside c (clamp (x_low c) (x_high c) qx) (clamp (y_low c) (y_high c) qy)"
    using vc by (auto simp: inside_def clamp_def)
  with assms(1) have "inside p (clamp (x_low c) (x_high c) qx) (clamp (y_low c) (y_high c) qy)"
    by (auto simp: inside_def mbr_contains_def)
  from min_dist_lower_bound [OF vp this] show ?thesis
    by (simp add: min_dist_clamp [OF vc])
qed

lemma min_dist_admissible:
  assumes "covering t" "leaves_valid t" "l \<in> set (leaves t)"
  shows "min_dist (mbr t) qx qy \<le> min_dist (mbr l) qx qy"
proof -
  from assms(2,3) have "valid_mbr (mbr l)"
    by (simp add: leaves_valid_def)
  with covering_leaf_contained [OF assms(1,3)] show ?thesis
    by (auto intro: min_dist_mono)
qed

lemma pending_add: "pending (e # q) = mset (leaves (node e)) + pending q"
  by (simp add: pending_def)

lemma pending_mset_cong: "mset q = mset q' \<Longrightarrow> pending q = pending q'"
  by (simp add: pending_def)

lemma weight_mset_cong: "mset q = mset q' \<Longrightarrow> weight q = weight q'"
  by (simp add: weight_def)

lemma fold_push:
  assumes "std_priority_queue heap pq_push pq_top pq_pop" "heap q"
  shows "heap (fold (\<lambda>child q. pq_push (E child) q) cs q)
       \<and> mset (fold (\<lambda>child q. pq_push (E child) q) cs q) = mset (map E cs) + mset q"
  using assms(2)
proof (induction cs arbitrary: q)
  case Nil
  then show ?case by simp
next
  case (Cons c cs)
  from assms(1) Cons.prems have h: "heap (pq_push (E c) q)"
    and m: "mset (pq_push (E c) q) = add_mset (E c) (mset q)"
    by (auto simp: std_priority_queue_def)
  from Cons.IH [OF h] m show ?case by simp
qed


definition entry_ok :: "real \<Rightarrow> real \<Rightarrow> PQEntry \<Rightarrow> bool" where
  "entry_ok x y e \<longleftrightarrow>
     distance e = min_dist (mbr (node e)) x y \<and> covering (node e) \<and> leaves_valid (node e)"

lemma pending_member:
  "l \<in># pending pq \<Longrightarrow> \<exists>e \<in> set pq. l \<in> set (leaves (node e))"
  by (induction pq) (auto simp: pending_add, simp add: pending_def)

lemma pending_lower_bound:
  assumes "\<forall>e \<in> set pq. entry_ok x y e" "l \<in># pending pq"
  shows "\<exists>e \<in> set pq. distance e \<le> min_dist (mbr l) x y"
proof -
  from pending_member [OF assms(2)] obtain e where e: "e \<in> set pq" "l \<in> set (leaves (node e))"
    by blast
  with assms(1) have "entry_ok x y e" by blast
  then have "distance e \<le> min_dist (mbr l) x y"
    using min_dist_admissible [of "node e" l x y] e(2) by (simp add: entry_ok_def)
  with e(1) show ?thesis by blast
qed

lemma pending_children:
  "pending (map (\<lambda>c. \<lparr>node = c, distance = d c\<rparr>) cs) = mset (concat (map leaves cs))"
  by (induction cs) (simp_all add: pending_add, simp add: pending_def)

lemma weight_children:
  "weight (map (\<lambda>c. \<lparr>node = c, distance = d c\<rparr>) cs) = sum_list (map node_count cs)"
  by (induction cs) (simp_all add: weight_def)

lemma pending_union: "mset q = mset a + mset b \<Longrightarrow> pending q = pending a + pending b"
  by (simp add: pending_def)

lemma weight_union: "mset q = mset a + mset b \<Longrightarrow> weight q = weight a + weight b"
  by (simp add: weight_def)


lemma knn_loop_stop:
  "\<not> (pq \<noteq> [] \<and> length res < static_cast_size_t k) \<Longrightarrow>
   knn_loop pq_push pq_top pq_pop x y k pq res = Some res"
  by (subst knn_loop.simps) auto

lemma knn_loop_leaf:
  "pq \<noteq> [] \<Longrightarrow> length res < static_cast_size_t k \<Longrightarrow> node (pq_top pq) = Node i m \<Longrightarrow>
   knn_loop pq_push pq_top pq_pop x y k pq res
     = knn_loop pq_push pq_top pq_pop x y k (pq_pop pq) (res @ [i])"
  by (subst knn_loop.simps) (simp add: Let_def)

lemma knn_loop_internal:
  "pq \<noteq> [] \<Longrightarrow> length res < static_cast_size_t k \<Longrightarrow>
   node (pq_top pq) = InternalNode i m f cs \<Longrightarrow>
   knn_loop pq_push pq_top pq_pop x y k pq res
     = knn_loop pq_push pq_top pq_pop x y k
         (fold (\<lambda>child q. pq_push \<lparr>node = child, distance = min_dist (mbr child) x y\<rparr> q) cs
            (pq_pop pq)) res"
  by (subst knn_loop.simps) (simp add: Let_def)

lemma knn_loop_correct:
  assumes pqc: "std_priority_queue heap pq_push pq_top pq_pop"
  shows "heap pq \<Longrightarrow>
    \<exists>ls. knn_loop pq_push pq_top pq_pop x y k pq res = Some (res @ map node_id ls)
       \<and> length ls = min (static_cast_size_t k - length res) (size (pending pq))
       \<and> mset ls \<subseteq># pending pq
       \<and> ((\<forall>e \<in> set pq. entry_ok x y e) \<longrightarrow>
            sorted (map (\<lambda>l. min_dist (mbr l) x y) ls)
            \<and> (\<forall>l' \<in> set ls. \<forall>l \<in># pending pq - mset ls.
                  min_dist (mbr l') x y \<le> min_dist (mbr l) x y))"
proof (induction "weight pq" arbitrary: pq res rule: less_induct)
  case less
  define K where "K = static_cast_size_t k"
  define dq where "dq = (\<lambda>l. min_dist (mbr l) x y)"
  show ?case
  proof (cases "pq \<noteq> [] \<and> length res < K")
    case False
    then have "knn_loop pq_push pq_top pq_pop x y k pq res = Some (res @ map node_id [])"
      using knn_loop_stop [of pq res k] by (simp add: K_def)
    moreover have "length ([] :: node list) = min (K - length res) (size (pending pq))"
      using False by (auto simp: pending_def)
    ultimately show ?thesis
      unfolding K_def by (intro exI [of _ "[]"]) simp
  next
    case True
    define e where "e = pq_top pq"
    define q1 where "q1 = pq_pop pq"
    from pqc less.prems True have e_in: "e \<in> set pq"
      and e_min: "\<forall>e' \<in> set pq. distance e \<le> distance e'"
      and h1: "heap q1" and m1: "mset q1 = mset pq - {#e#}"
      unfolding std_priority_queue_def e_def q1_def by blast+
    from e_in m1 have mpq: "mset pq = mset [e] + mset q1"
      by simp
    have pend: "pending pq = mset (leaves (node e)) + pending q1"
      using pending_union [OF mpq] by (simp add: pending_def)
    have wt: "weight pq = node_count (node e) + weight q1"
      using weight_union [OF mpq] by (simp add: weight_def)
    have sub1: "set q1 \<subseteq> set pq"
      using m1 by (metis in_diffD set_mset_mset subsetI)
    show ?thesis
    proof (cases "node e")
      case (Node i m)
      have step: "knn_loop pq_push pq_top pq_pop x y k pq res
                    = knn_loop pq_push pq_top pq_pop x y k q1 (res @ [i])"
        using knn_loop_leaf [of pq res k pq_top i m] True Node by (simp add: K_def e_def q1_def)
      from wt Node have "weight q1 < weight pq" by simp
      from less.hyps [OF this h1, of "res @ [i]"] obtain ls where
        r: "knn_loop pq_push pq_top pq_pop x y k q1 (res @ [i]) = Some ((res @ [i]) @ map node_id ls)"
        and len: "length ls = min (K - length (res @ [i])) (size (pending q1))"
        and sub: "mset ls \<subseteq># pending q1"
        and ord: "(\<forall>e \<in> set q1. entry_ok x y e) \<longrightarrow>
            sorted (map dq ls) \<and> (\<forall>l' \<in> set ls. \<forall>l \<in># pending q1 - mset ls. dq l' \<le> dq l)"
        unfolding K_def dq_def by blast
      have pend': "pending pq = add_mset (node e) (pending q1)"
        using pend Node by simp
      have "knn_loop pq_push pq_top pq_pop x y k pq res = Some (res @ map node_id (node e # ls))"
        using step r Node by simp
      moreover have "length (node e # ls) = min (K - length res) (size (pending pq))"
        using len True pend' by (auto simp: min_def)
      moreover have "mset (node e # ls) \<subseteq># pending pq"
        using sub pend' by simp
      moreover have "sorted (map dq (node e # ls))
            \<and> (\<forall>l' \<in> set (node e # ls). \<forall>l \<in># pending pq - mset (node e # ls). dq l' \<le> dq l)"
        if ok: "\<forall>e \<in> set pq. entry_ok x y e"
      proof -
        from ok sub1 have ok1: "\<forall>e \<in> set q1. entry_ok x y e" by blast
        from ok e_in have de: "distance e = dq (node e)"
          by (simp add: entry_ok_def dq_def)
        have lb: "dq (node e) \<le> dq l" if "l \<in># pending q1" for l
        proof -
          from pending_lower_bound [OF ok1 that] obtain e' where
            "e' \<in> set q1" "distance e' \<le> dq l"
            unfolding dq_def by blast
          with e_min sub1 de show ?thesis by force
        qed
        from ord ok1 have s: "sorted (map dq ls)"
          and sep: "\<forall>l' \<in> set ls. \<forall>l \<in># pending q1 - mset ls. dq l' \<le> dq l"
          by blast+
        have in_pend: "l \<in># pending q1" if "l \<in> set ls" for l
          using sub that by (metis mset_subset_eqD set_mset_mset)
        have "sorted (map dq (node e # ls))"
          using s lb in_pend by simp
        moreover have "pending pq - mset (node e # ls) = pending q1 - mset ls"
          using pend' by simp
        moreover have "dq (node e) \<le> dq l" if "l \<in># pending q1 - mset ls" for l
          using lb that by (meson in_diffD)
        ultimately show ?thesis
          using sep by simp
      qed
      ultimately show ?thesis
        unfolding K_def dq_def by (intro exI [of _ "node e # ls"]) blast
    next
      case (InternalNode i m f cs)
      define E where "E = (\<lambda>child. \<lparr>node = child, distance = min_dist (mbr child) x y\<rparr>)"
      define q2 where "q2 = fold (\<lambda>child q. pq_push (E child) q) cs q1"
      have step: "knn_loop pq_push pq_top pq_pop x y k pq res
                    = knn_loop pq_push pq_top pq_pop x y k q2 res"
        using knn_loop_internal [of pq res k pq_top i m f cs] True InternalNode
        by (simp add: K_def e_def q1_def q2_def E_def)
      from fold_push [OF pqc h1, of E cs] have h2: "heap q2"
        and m2: "mset q2 = mset (map E cs) + mset q1"
        by (simp_all add: q2_def)
      have pend2: "pending q2 = pending pq"
        using pending_union [OF m2] pend InternalNode
        by (simp add: E_def pending_children)
      have "weight q2 = sum_list (map node_count cs) + weight q1"
        using weight_union [OF m2] by (simp add: E_def weight_children)
      with wt InternalNode have "weight q2 < weight pq" by simp
      from less.hyps [OF this h2, of res] obtain ls where
        r: "knn_loop pq_push pq_top pq_pop x y k q2 res = Some (res @ map node_id ls)"
        and len: "length ls = min (K - length res) (size (pending q2))"
        and sub: "mset ls \<subseteq># pending q2"
        and ord: "(\<forall>e \<in> set q2. entry_ok x y e) \<longrightarrow>
            sorted (map dq ls) \<and> (\<forall>l' \<in> set ls. \<forall>l \<in># pending q2 - mset ls. dq l' \<le> dq l)"
        unfolding K_def dq_def by blast
      have ok2: "\<forall>e \<in> set q2. entry_ok x y e" if ok: "\<forall>e \<in> set pq. entry_ok x y e"
      proof
        fix e' assume "e' \<in> set q2"
        then have "e' \<in># mset (map E cs) + mset q1"
          using m2 by (metis set_mset_mset)
        then consider c where "c \<in> set cs" "e' = E c" | "e' \<in> set q1"
          by auto
        then show "entry_ok x y e'"
        proof cases
          case 1
          from ok e_in have "covering (node e)" "leaves_valid (node e)"
            by (simp_all add: entry_ok_def)
          with InternalNode 1(1) have "covering c" "leaves_valid c"
            by (auto simp: leaves_valid_def)
          with 1(2) show ?thesis
            by (simp add: entry_ok_def E_def)
        next
          case 2
          with ok sub1 show ?thesis by blast
        qed
      qed
      from r len sub ord ok2 show ?thesis
        unfolding step pend2 K_def dq_def by blast
    qed
  qed
qed


text \<open>
  A queue implementation that meets the contract, used to run the model on examples: the
  vector is kept sorted by distance.
\<close>

definition sorted_heap :: "PQEntry list \<Rightarrow> bool" where
  "sorted_heap q \<longleftrightarrow> sorted (map distance q)"

definition sorted_push :: "PQEntry \<Rightarrow> PQEntry list \<Rightarrow> PQEntry list" where
  "sorted_push e q = insort_key distance e q"

definition sorted_top :: "PQEntry list \<Rightarrow> PQEntry" where
  "sorted_top q = hd q"

definition sorted_pop :: "PQEntry list \<Rightarrow> PQEntry list" where
  "sorted_pop q = tl q"

lemma sorted_queue: "std_priority_queue sorted_heap sorted_push sorted_top sorted_pop"
proof -
  have "sorted_heap []"
    by (simp add: sorted_heap_def)
  moreover have "sorted_heap (sorted_push e q) \<and> mset (sorted_push e q) = add_mset e (mset q)"
    if "sorted_heap q" for e q
    using that by (simp add: sorted_heap_def sorted_push_def sorted_insort_key)
  moreover have "sorted_top q \<in> set q \<and> (\<forall>e \<in> set q. distance (sorted_top q) \<le> distance e)
      \<and> sorted_heap (sorted_pop q) \<and> mset (sorted_pop q) = mset q - {#sorted_top q#}"
    if "sorted_heap q \<and> q \<noteq> []" for q
    using that by (cases q) (auto simp: sorted_heap_def sorted_top_def sorted_pop_def)
  ultimately show ?thesis
    unfolding std_priority_queue_def by blast
qed

lemma static_cast_size_t_nat: "0 \<le> k \<Longrightarrow> k < 2 ^ 31 \<Longrightarrow> static_cast_size_t k = nat k"
  by (simp add: static_cast_size_t_def)

lemma knn_from_root:
  assumes pqc: "std_priority_queue heap pq_push pq_top pq_pop"
  shows "\<exists>ls. run_kn_query pq_push pq_top pq_pop (Some rt) x y k = Some (Inr (map node_id ls))
       \<and> length ls = min (static_cast_size_t k) (length (leaves rt))
       \<and> mset ls \<subseteq># mset (leaves rt)
       \<and> (covering rt \<and> leaves_valid rt \<longrightarrow>
            sorted (map (\<lambda>l. min_dist (mbr l) x y) ls)
            \<and> (\<forall>l' \<in> set ls. \<forall>l \<in># mset (leaves rt) - mset ls.
                  min_dist (mbr l') x y \<le> min_dist (mbr l) x y))"
proof -
  define e0 where "e0 = \<lparr>node = rt, distance = min_dist (mbr rt) x y\<rparr>"
  define q0 where "q0 = pq_push e0 []"
  from pqc have h0: "heap q0" and m0: "mset q0 = mset [e0]"
    by (auto simp: std_priority_queue_def q0_def)
  have p0: "pending q0 = mset (leaves rt)"
    using pending_mset_cong [OF m0] by (simp add: pending_def e0_def)
  from m0 have "set q0 = {e0}"
    by (metis list.set(1) list.simps(15) mset_eq_setD)
  then have ok: "\<forall>e \<in> set q0. entry_ok x y e" if "covering rt \<and> leaves_valid rt"
    using that by (simp add: entry_ok_def e0_def)
  from knn_loop_correct [OF pqc h0, of x y k "[]"] obtain ls where
    "knn_loop pq_push pq_top pq_pop x y k q0 [] = Some (map node_id ls)"
    "length ls = min (static_cast_size_t k) (size (pending q0))"
    "mset ls \<subseteq># pending q0"
    "(\<forall>e \<in> set q0. entry_ok x y e) \<longrightarrow>
            sorted (map (\<lambda>l. min_dist (mbr l) x y) ls)
            \<and> (\<forall>l' \<in> set ls. \<forall>l \<in># pending q0 - mset ls.
                  min_dist (mbr l') x y \<le> min_dist (mbr l) x y)"
    by auto
  with ok show ?thesis
    unfolding p0 by (intro exI [of _ ls]) (simp add: run_kn_query_def q0_def e0_def)
qed

text \<open>
  C1. For every queue implementation meeting the library contract, every tree whose
  internal nodes contain the MBRs of their children and whose leaf rectangles satisfy
  \<open>x_low \<le> x_high\<close>, \<open>y_low \<le> y_high\<close> (as every rectangle computed by the loader
  does), every query point and every \<open>k \<ge> 0\<close> of type \<open>int\<close>: the query returns; it
  returns the ids of \<open>min k n\<close> leaves of the tree, \<open>n\<close> the number of leaves, each leaf
  taken at most once; their distances \<open>min_dist\<close> to the query point are non-decreasing
  along the returned sequence; and no leaf left out is nearer than a returned one, so the
  returned leaves are \<open>k\<close> nearest ones.
\<close>

theorem knn_best_first:
  assumes "std_priority_queue heap pq_push pq_top pq_pop"
    and "covering rt" and "leaves_valid rt" and "0 \<le> k" and "k < 2 ^ 31"
  shows "\<exists>ls. run_kn_query pq_push pq_top pq_pop (Some rt) x y k = Some (Inr (map node_id ls))
       \<and> length ls = min (nat k) (length (leaves rt))
       \<and> mset ls \<subseteq># mset (leaves rt)
       \<and> sorted (map (\<lambda>l. min_dist (mbr l) x y) ls)
       \<and> (\<forall>l' \<in> set ls. \<forall>l \<in># mset (leaves rt) - mset ls.
              min_dist (mbr l') x y \<le> min_dist (mbr l) x y)"
  using knn_from_root [OF assms(1), of rt x y k] assms(2,3) static_cast_size_t_nat [OF assms(4,5)]
  by auto

lemma example_knn:
  "run_kn_query sorted_push sorted_top sorted_pop (Some example_tree) 0 0 2 = Some (Inr [1, 3])"
  by (simp add: run_kn_query_def example_tree_def knn_loop.simps sorted_push_def sorted_top_def
      sorted_pop_def min_dist_def static_cast_size_t_def)


theorem knn_best_first_witness:
  "std_priority_queue sorted_heap sorted_push sorted_top sorted_pop
   \<and> covering example_tree \<and> leaves_valid example_tree \<and> (0::int) \<le> 2 \<and> (2::int) < 2 ^ 31
   \<and> run_kn_query sorted_push sorted_top sorted_pop (Some example_tree) 0 0 2 = Some (Inr [1, 3])
   \<and> (\<exists>ls. run_kn_query sorted_push sorted_top sorted_pop (Some example_tree) 0 0 2
               = Some (Inr (map node_id ls))
         \<and> length ls = min (nat 2) (length (leaves example_tree))
         \<and> mset ls \<subseteq># mset (leaves example_tree)
         \<and> sorted (map (\<lambda>l. min_dist (mbr l) 0 0) ls)
         \<and> (\<forall>l' \<in> set ls. \<forall>l \<in># mset (leaves example_tree) - mset ls.
                min_dist (mbr l') 0 0 \<le> min_dist (mbr l) 0 0))"
proof -
  have c: "covering example_tree"
    by (simp add: example_tree_def mbr_contains_def)
  have v: "leaves_valid example_tree"
    by (simp add: example_tree_def leaves_valid_def valid_mbr_def)
  have k: "(0::int) \<le> 2" "(2::int) < 2 ^ 31"
    by simp_all
  from knn_best_first [OF sorted_queue c v k, of 0 0] sorted_queue c v k example_knn
  show ?thesis by blast
qed

definition twin_tree :: node where
  "twin_tree =
     InternalNode 0 \<lparr>x_low = 0, y_low = 0, x_high = 3, y_high = 3\<rparr> True
       [Node 7 \<lparr>x_low = 0, y_low = 0, x_high = 1, y_high = 1\<rparr>,
        Node 7 \<lparr>x_low = 2, y_low = 2, x_high = 3, y_high = 3\<rparr>]"

text \<open>
  C10, as stated, fails: two different leaf nodes (with different rectangles), each under
  its one parent, may carry the same id; both are found and the id is printed twice.
\<close>

theorem knn_repeated_id:
  "distinct (leaves twin_tree)
   \<and> run_kn_query sorted_push sorted_top sorted_pop (Some twin_tree) 0 0 2 = Some (Inr [7, 7])
   \<and> \<not> distinct [7, 7 :: int]"
  by (simp add: run_kn_query_def twin_tree_def knn_loop.simps sorted_push_def sorted_top_def
      sorted_pop_def min_dist_def static_cast_size_t_def)

text \<open>
  C10, amended. For every tree whose leaves carry pairwise different ids (no leaf occurs
  twice in the unfolding of the tree, and no two leaves share an id), every query point and
  every \<open>k\<close>, the query returns and the returned id list has no repetition: the returned
  ids are those of a sub-multiset of the leaves.
\<close>

lemma distinct_sub_mset:
  assumes "mset ys \<subseteq># mset xs" "distinct xs"
  shows "distinct ys"
proof -
  have "count (mset ys) a = (if a \<in> set ys then 1 else 0)" for a
  proof -
    have "count (mset ys) a \<le> count (mset xs) a"
      using assms(1) by (rule mset_subset_eq_count)
    also have "\<dots> \<le> 1"
      using assms(2) by (simp add: distinct_count_atmost_1)
    finally have le1: "count (mset ys) a \<le> 1" .
    show ?thesis
    proof (cases "a \<in> set ys")
      case True
      then have "0 < count (mset ys) a"
        by (simp only: count_greater_zero_iff set_mset_mset)
      with le1 have "count (mset ys) a = 1" by linarith
      with True show ?thesis by (simp only: if_True)
    next
      case False
      then have "count (mset ys) a = 0"
        by (simp only: count_mset_0_iff not_False_eq_True)
      with False show ?thesis by (simp only: if_False)
    qed
  qed
  then show ?thesis
    by (simp only: distinct_count_atmost_1) simp
qed

theorem knn_ids_distinct:
  assumes "std_priority_queue heap pq_push pq_top pq_pop"
    and "distinct (map node_id (leaves rt))"
  shows "\<exists>ids. run_kn_query pq_push pq_top pq_pop (Some rt) x y k = Some (Inr ids) \<and> distinct ids"
proof -
  from knn_from_root [OF assms(1), of rt x y k] obtain ls where
    r: "run_kn_query pq_push pq_top pq_pop (Some rt) x y k = Some (Inr (map node_id ls))"
    and sub: "mset ls \<subseteq># mset (leaves rt)"
    by blast
  from sub have "mset (map node_id ls) \<subseteq># mset (map node_id (leaves rt))"
    by (simp add: image_mset_subseteq_mono)
  from distinct_sub_mset [OF this assms(2)] have "distinct (map node_id ls)" .
  with r show ?thesis by blast
qed

theorem knn_ids_distinct_witness:
  "std_priority_queue sorted_heap sorted_push sorted_top sorted_pop
   \<and> distinct (map node_id (leaves example_tree))
   \<and> (\<exists>ids. run_kn_query sorted_push sorted_top sorted_pop (Some example_tree) 0 0 2 = Some (Inr ids)
         \<and> distinct ids)"
proof -
  have d: "distinct (map node_id (leaves example_tree))"
    by (simp add: example_tree_def)
  from knn_ids_distinct [OF sorted_queue d, of 0 0 2] sorted_queue d show ?thesis
    by blast
qed

section \<open>Sorting the entries by locality key (r_tree_bulk_loading.cpp)\<close>




















section \<open>Writing the tree and reading it back\<close>

text \<open>
  The scanner \<open>extract_numbers\<close> on the characters the serializer writes: a separator
  is a character that can neither start nor continue a token.
\<close>

definition is_sep :: "char \<Rightarrow> bool" where
  "is_sep c \<longleftrightarrow> \<not> isdigit c \<and> c \<noteq> CHR ''-'' \<and> c \<noteq> CHR ''.''"

definition digits :: "string \<Rightarrow> bool" where
  "digits ds \<longleftrightarrow> (\<forall>c \<in> set ds. isdigit c)"

lemma scan_digits:
  "digits ds \<Longrightarrow>
   extract_loop prev (ds @ rest) cur numbers =
     extract_loop (if ds = [] then prev else Some (last ds)) rest (cur @ ds) numbers"
proof (induction ds arbitrary: prev cur)
  case Nil
  then show ?case by simp
next
  case (Cons d ds)
  then have "isdigit d" "digits ds"
    by (simp_all add: digits_def)
  with Cons.IH [of "Some d" "cur @ [d]"] show ?case
    by simp
qed

lemma scan_sep:
  "is_sep s \<Longrightarrow>
   extract_loop prev (s # rest) cur numbers =
     extract_loop (Some s) rest [] (if cur \<noteq> [] then numbers @ [cur] else numbers)"
  by (simp add: is_sep_def)

lemma scan_minus:
  "is_sep p \<Longrightarrow>
   extract_loop (Some p) (CHR ''-'' # rest) cur numbers =
     extract_loop (Some (CHR ''-'')) rest (cur @ ''-'') numbers"
  by (simp add: is_sep_def)

lemma scan_dot:
  "cur \<noteq> [] \<Longrightarrow> isdigit (last cur) \<Longrightarrow>
   extract_loop prev (CHR ''.'' # rest) cur numbers =
     extract_loop (Some (CHR ''.'')) rest (cur @ ''.'') numbers"
  by simp

text \<open>The shape of a printed number: sign, digits, and for a double a point and digits.\<close>

definition int_token :: "string \<Rightarrow> bool" where
  "int_token t \<longleftrightarrow> (\<exists>ds. digits ds \<and> ds \<noteq> [] \<and> (t = ds \<or> t = CHR ''-'' # ds))"

definition double_token :: "string \<Rightarrow> bool" where
  "double_token t \<longleftrightarrow>
     (\<exists>ds fs. digits ds \<and> ds \<noteq> [] \<and> digits fs \<and> fs \<noteq> [] \<and>
        (t = ds @ CHR ''.'' # fs \<or> t = CHR ''-'' # ds @ CHR ''.'' # fs))"

lemma digits_last: "digits ds \<Longrightarrow> ds \<noteq> [] \<Longrightarrow> isdigit (last ds)"
  by (simp add: digits_def)

lemma scan_unsigned_int:
  assumes "digits ds" "ds \<noteq> []" "is_sep s"
  shows "extract_loop prev (ds @ s # rest) cur numbers
           = extract_loop (Some s) rest [] (numbers @ [cur @ ds])"
  using assms by (simp add: scan_digits scan_sep del: extract_loop.simps)

lemma scan_unsigned_double:
  assumes "digits ds" "ds \<noteq> []" "digits fs" "fs \<noteq> []" "is_sep s"
  shows "extract_loop prev ((ds @ CHR ''.'' # fs) @ s # rest) cur numbers
           = extract_loop (Some s) rest [] (numbers @ [cur @ ds @ CHR ''.'' # fs])"
proof -
  have "extract_loop prev (ds @ CHR ''.'' # fs @ s # rest) cur numbers
          = extract_loop (Some (last ds)) (CHR ''.'' # fs @ s # rest) (cur @ ds) numbers"
    using assms(1,2) by (simp add: scan_digits del: extract_loop.simps)
  also have "\<dots> = extract_loop (Some (CHR ''.'')) (fs @ s # rest) ((cur @ ds) @ ''.'') numbers"
    using assms(1,2) by (intro scan_dot) (simp_all add: digits_last)
  also have "\<dots> = extract_loop (Some s) rest [] (numbers @ [((cur @ ds) @ ''.'') @ fs])"
    using assms(3,4,5) by (rule scan_unsigned_int)
  finally show ?thesis by (simp del: extract_loop.simps)
qed

lemma scan_int_token:
  assumes "int_token t" "is_sep p" "is_sep s"
  shows "extract_loop (Some p) (t @ s # rest) [] numbers = extract_loop (Some s) rest [] (numbers @ [t])"
proof -
  from assms(1) obtain ds where ds: "digits ds" "ds \<noteq> []" and t: "t = ds \<or> t = CHR ''-'' # ds"
    unfolding int_token_def by blast
  from t show ?thesis
  proof
    assume "t = ds"
    with scan_unsigned_int [OF ds assms(3), of "Some p" rest "[]" numbers] show ?thesis by (simp del: extract_loop.simps)
  next
    assume t: "t = CHR ''-'' # ds"
    have "extract_loop (Some p) (CHR ''-'' # ds @ s # rest) [] numbers
            = extract_loop (Some (CHR ''-'')) (ds @ s # rest) ([] @ ''-'') numbers"
      using assms(2) by (rule scan_minus)
    also have "\<dots> = extract_loop (Some s) rest [] (numbers @ [([] @ ''-'') @ ds])"
      using ds assms(3) by (rule scan_unsigned_int)
    finally show ?thesis using t by (simp del: extract_loop.simps)
  qed
qed

lemma scan_double_token:
  assumes "double_token t" "is_sep p" "is_sep s"
  shows "extract_loop (Some p) (t @ s # rest) [] numbers = extract_loop (Some s) rest [] (numbers @ [t])"
proof -
  from assms(1) obtain ds fs where ds: "digits ds" "ds \<noteq> []" "digits fs" "fs \<noteq> []"
    and t: "t = ds @ CHR ''.'' # fs \<or> t = CHR ''-'' # ds @ CHR ''.'' # fs"
    unfolding double_token_def by blast
  from t show ?thesis
  proof
    assume "t = ds @ CHR ''.'' # fs"
    with scan_unsigned_double [OF ds assms(3), of "Some p" rest "[]" numbers] show ?thesis by (simp del: extract_loop.simps)
  next
    assume t: "t = CHR ''-'' # ds @ CHR ''.'' # fs"
    have "extract_loop (Some p) (CHR ''-'' # (ds @ CHR ''.'' # fs) @ s # rest) [] numbers
            = extract_loop (Some (CHR ''-'')) ((ds @ CHR ''.'' # fs) @ s # rest) ([] @ ''-'') numbers"
      using assms(2) by (rule scan_minus)
    also have "\<dots> = extract_loop (Some s) rest [] (numbers @ [([] @ ''-'') @ ds @ CHR ''.'' # fs])"
      using ds assms(3) by (rule scan_unsigned_double)
    finally show ?thesis using t by (simp del: extract_loop.simps)
  qed
qed


lemma digit_cases: "d < 10 \<Longrightarrow> d \<in> {0, 1, 2, 3, 4, 5, 6, 7, 8, 9 :: nat}"
  by auto

lemma digit_char_isdigit: "d < 10 \<Longrightarrow> isdigit (digit_char d)"
  by (drule digit_cases) (auto simp: digit_char_def isdigit_def)

lemma digit_val_digit_char: "d < 10 \<Longrightarrow> digit_val (digit_char d) = d"
  by (drule digit_cases) (auto simp: digit_char_def digit_val_def)

lemma dec_digits_shape: "digits (dec_digits n) \<and> dec_digits n \<noteq> []"
proof (induction n rule: dec_digits.induct)
  case (1 n)
  show ?case
  proof (cases "n < 10")
    case True
    then show ?thesis
      by (simp add: dec_digits.simps [of n] digits_def digit_char_isdigit)
  next
    case False
    with "1.IH" show ?thesis
      by (simp add: dec_digits.simps [of n] digits_def digit_char_isdigit)
  qed
qed

lemma digits_value_snoc: "digits_value (ds @ [c]) = 10 * digits_value ds + digit_val c"
  by (simp add: digits_value_def)

lemma digits_value_dec_digits: "digits_value (dec_digits n) = n"
proof (induction n rule: dec_digits.induct)
  case (1 n)
  show ?case
  proof (cases "n < 10")
    case True
    then show ?thesis
      by (simp add: dec_digits.simps [of n] digits_value_def digit_val_digit_char)
  next
    case False
    with "1.IH" show ?thesis
      by (simp add: dec_digits.simps [of n] digits_value_snoc digit_val_digit_char)
  qed
qed

lemma dec_digits_length: "n < 10 ^ k \<Longrightarrow> 0 < k \<Longrightarrow> length (dec_digits n) \<le> k"
proof (induction n arbitrary: k rule: dec_digits.induct)
  case (1 n)
  show ?case
  proof (cases "n < 10")
    case True
    with "1.prems" show ?thesis
      by (simp add: dec_digits.simps [of n])
  next
    case False
    with "1.prems" obtain j where k: "k = Suc j"
      by (cases k) auto
    with False "1.prems" have "0 < j"
      by (cases j) auto
    moreover from k "1.prems" have "n div 10 < 10 ^ j"
      by (simp add: less_mult_imp_div_less mult.commute)
    ultimately have "length (dec_digits (n div 10)) \<le> j"
      using "1.IH" [OF False] by blast
    with False k show ?thesis
      by (simp add: dec_digits.simps [of n])
  qed
qed

lemma digits_value_zeros: "digits_value (replicate j (CHR ''0'') @ ds) = digits_value ds"
proof -
  have "fold (\<lambda>c n. 10 * n + digit_val c) (replicate j (CHR ''0'')) 0 = 0"
    by (induction j) (simp_all add: digit_val_def)
  then show ?thesis
    by (simp add: digits_value_def)
qed

lemma int_to_string_token: "int_token (int_to_string i)"
  using dec_digits_shape by (auto simp: int_token_def int_to_string_def)

lemma digits_not_minus: "digits ds \<Longrightarrow> ds \<noteq> [] \<Longrightarrow> hd ds \<noteq> CHR ''-''"
  by (cases ds) (auto simp: digits_def isdigit_def)

lemma takeWhile_digits: "digits ds \<Longrightarrow> takeWhile isdigit ds = ds"
  by (simp add: digits_def)

lemma split_sign_digits: "digits ds \<Longrightarrow> ds \<noteq> [] \<Longrightarrow> split_sign (ds @ rest) = (False, ds @ rest)"
  using digits_not_minus [of ds] by (cases ds) (auto simp: split_sign_def)

lemma split_sign_minus: "split_sign (CHR ''-'' # t) = (True, t)"
  by (simp add: split_sign_def)

lemma stoi_unsigned:
  assumes "digits ds" "ds \<noteq> []"
  shows "stoi ds = (if 2 ^ 31 \<le> int (digits_value ds) then Inl OutOfRange else Inr (int (digits_value ds)))"
  using assms split_sign_digits [OF assms, of "[]"]
  by (auto simp: stoi_def takeWhile_digits)

lemma stoi_int_to_string:
  assumes "- (2 ^ 31) \<le> i" "i < 2 ^ 31"
  shows "stoi (int_to_string i) = Inr i"
proof (cases "i < 0")
  case False
  with assms stoi_unsigned [of "dec_digits (nat i)"] dec_digits_shape [of "nat i"] show ?thesis
    by (simp add: int_to_string_def digits_value_dec_digits)
next
  case True
  with assms dec_digits_shape [of "nat (- i)"] show ?thesis
    by (simp add: int_to_string_def stoi_def split_sign_minus takeWhile_digits
        digits_value_dec_digits)
qed

text \<open>
  The value a coordinate has after it is written with six decimals and read again.
\<close>

definition round6 :: "real \<Rightarrow> real" where
  "round6 x =
     (if x < 0 then - real (nat (round_half_even (\<bar>x\<bar> * 10 ^ 6))) / 10 ^ 6
      else real (nat (round_half_even (\<bar>x\<bar> * 10 ^ 6))) / 10 ^ 6)"

lemma dot_not_digit: "\<not> isdigit (CHR ''.'')"
  by (simp add: isdigit_def)

lemma stod_unsigned:
  assumes "digits ds" "ds \<noteq> []" "digits fs"
  shows "stod (ds @ CHR ''.'' # fs)
           = Inr (real (digits_value ds) + real (digits_value fs) / 10 ^ length fs)"
proof -
  have tw: "takeWhile isdigit (ds @ CHR ''.'' # fs) = ds"
    using assms(1) by (simp add: takeWhile_append2 digits_def dot_not_digit)
  have dw: "dropWhile isdigit (ds @ CHR ''.'' # fs) = CHR ''.'' # fs"
    using assms(1) by (simp add: dropWhile_append2 digits_def dot_not_digit)
  from split_sign_digits [OF assms(1,2), of "CHR ''.'' # fs"] tw dw assms show ?thesis
    by (simp add: stod_def takeWhile_digits)
qed

lemma real_div_mod_million:
  "real (n div 10 ^ 6) + real (n mod 10 ^ 6) / 10 ^ 6 = real n / 10 ^ 6"
proof -
  have "real n = real (n div 10 ^ 6 * 10 ^ 6 + n mod 10 ^ 6)"
    by (simp only: div_mult_mod_eq)
  also have "\<dots> = real (n div 10 ^ 6) * 10 ^ 6 + real (n mod 10 ^ 6)"
    by (simp only: of_nat_add of_nat_mult of_nat_power of_nat_numeral)
  finally show ?thesis
    by (simp add: field_simps)
qed

lemma fixed6_parts:
  obtains ds fs where "digits ds" "ds \<noteq> []" "digits fs" "length fs = 6"
    "fixed6 x = (if x < 0 then ''-'' else []) @ ds @ CHR ''.'' # fs"
    "real (digits_value ds) + real (digits_value fs) / 10 ^ 6
       = real (nat (round_half_even (\<bar>x\<bar> * 10 ^ 6))) / 10 ^ 6"
proof -
  define n where "n = nat (round_half_even (\<bar>x\<bar> * 10 ^ 6))"
  define frac where "frac = dec_digits (n mod 10 ^ 6)"
  define ds where "ds = dec_digits (n div 10 ^ 6)"
  define fs where "fs = replicate (6 - length frac) (CHR ''0'') @ frac"
  have "length frac \<le> 6"
    unfolding frac_def by (rule dec_digits_length) simp_all
  then have len: "length fs = 6"
    by (simp add: fs_def)
  have "isdigit (CHR ''0'')"
    by (simp add: isdigit_def)
  then have dfs: "digits fs"
    using dec_digits_shape [of "n mod 10 ^ 6"]
    by (auto simp: fs_def frac_def digits_def)
  have "digits_value fs = n mod 10 ^ 6"
    by (simp add: fs_def frac_def digits_value_zeros digits_value_dec_digits)
  moreover have "digits_value ds = n div 10 ^ 6"
    by (simp add: ds_def digits_value_dec_digits)
  moreover have "real (n div 10 ^ 6) + real (n mod 10 ^ 6) / 10 ^ 6 = real n / 10 ^ 6"
    by (rule real_div_mod_million)
  ultimately have v: "real (digits_value ds) + real (digits_value fs) / 10 ^ 6
       = real (nat (round_half_even (\<bar>x\<bar> * 10 ^ 6))) / 10 ^ 6"
    by (simp add: n_def)
  have "fixed6 x = (if x < 0 then ''-'' else []) @ ds @ CHR ''.'' # fs"
    by (simp add: fixed6_def Let_def n_def frac_def ds_def fs_def)
  with dec_digits_shape [of "n div 10 ^ 6"] dfs len v show ?thesis
    by (intro that [of ds fs]) (simp_all add: ds_def)
qed

lemma fixed6_token: "double_token (fixed6 x)"
proof -
  obtain ds fs where p: "digits ds" "ds \<noteq> []" "digits fs" "length fs = 6"
    "fixed6 x = (if x < 0 then ''-'' else []) @ ds @ CHR ''.'' # fs"
    by (rule fixed6_parts)
  from p(4) have "fs \<noteq> []" by auto
  with p show ?thesis
    unfolding double_token_def by (intro exI [of _ ds] exI [of _ fs]) auto
qed

lemma stod_fixed6: "stod (fixed6 x) = Inr (round6 x)"
proof -
  obtain ds fs where p: "digits ds" "ds \<noteq> []" "digits fs" "length fs = 6"
    "fixed6 x = (if x < 0 then ''-'' else []) @ ds @ CHR ''.'' # fs"
    "real (digits_value ds) + real (digits_value fs) / 10 ^ 6
       = real (nat (round_half_even (\<bar>x\<bar> * 10 ^ 6))) / 10 ^ 6"
    by (rule fixed6_parts)
  have tw: "takeWhile isdigit (ds @ CHR ''.'' # fs) = ds"
    using p(1) by (simp add: takeWhile_append2 digits_def dot_not_digit)
  have dw: "dropWhile isdigit (ds @ CHR ''.'' # fs) = CHR ''.'' # fs"
    using p(1) by (simp add: dropWhile_append2 digits_def dot_not_digit)
  show ?thesis
  proof (cases "x < 0")
    case False
    with stod_unsigned [OF p(1,2,3)] p(4,5,6) show ?thesis
      by (simp add: round6_def)
  next
    case True
    with p(5) have "fixed6 x = CHR ''-'' # ds @ CHR ''.'' # fs" by simp
    with True tw dw p show ?thesis
      by (simp add: stod_def split_sign_minus takeWhile_digits round6_def)
  qed
qed

lemma round_half_even_bounds: "\<lfloor>x\<rfloor> \<le> round_half_even x \<and> round_half_even x \<le> \<lfloor>x\<rfloor> + 1"
  by (simp add: round_half_even_def Let_def)

lemma round_half_even_mono:
  assumes "x \<le> y"
  shows "round_half_even x \<le> round_half_even y"
proof (cases "\<lfloor>x\<rfloor> < \<lfloor>y\<rfloor>")
  case True
  with round_half_even_bounds [of x] round_half_even_bounds [of y] show ?thesis
    by linarith
next
  case False
  with floor_mono [OF assms] have eq: "\<lfloor>x\<rfloor> = \<lfloor>y\<rfloor>" by simp
  with assms have "x - of_int \<lfloor>x\<rfloor> \<le> y - of_int \<lfloor>y\<rfloor>" by simp
  with eq show ?thesis
    by (auto simp: round_half_even_def Let_def)
qed

lemma round_half_even_nonneg: "0 \<le> x \<Longrightarrow> 0 \<le> round_half_even x"
  using round_half_even_bounds [of x] by (simp add: order_trans [of 0 "\<lfloor>x\<rfloor>"])

lemma round6_nonneg: "0 \<le> x \<Longrightarrow> round6 x = of_int (round_half_even (x * 10 ^ 6)) / 10 ^ 6"
  using round_half_even_nonneg [of "x * 10 ^ 6"] by (simp add: round6_def)

lemma round6_neg: "x < 0 \<Longrightarrow> round6 x = - of_int (round_half_even (- x * 10 ^ 6)) / 10 ^ 6"
  using round_half_even_nonneg [of "- x * 10 ^ 6"] by (simp add: round6_def)

lemma round6_mono: "mono round6"
proof (rule monoI)
  fix x y :: real
  assume le: "x \<le> y"
  consider "0 \<le> x" | "x < 0" "0 \<le> y" | "y < 0" by linarith
  then show "round6 x \<le> round6 y"
  proof cases
    case 1
    with le have "0 \<le> y" by simp
    moreover from le have "round_half_even (x * 10 ^ 6) \<le> round_half_even (y * 10 ^ 6)"
      by (intro round_half_even_mono) simp
    ultimately show ?thesis
      using 1 by (simp add: round6_nonneg divide_right_mono)
  next
    case 2
    have "0 \<le> round_half_even (- x * 10 ^ 6)"
      using 2(1) by (intro round_half_even_nonneg) simp
    moreover have "0 \<le> round_half_even (y * 10 ^ 6)"
      using 2(2) by (intro round_half_even_nonneg) simp
    ultimately have "round6 x \<le> 0" "0 \<le> round6 y"
      using 2 by (simp_all add: round6_neg round6_nonneg)
    then show ?thesis by simp
  next
    case 3
    with le have "x < 0" by simp
    moreover from le have "round_half_even (- y * 10 ^ 6) \<le> round_half_even (- x * 10 ^ 6)"
      by (intro round_half_even_mono) simp
    ultimately show ?thesis
      using 3 by (simp add: round6_neg divide_right_mono)
  qed
qed

text \<open>Six decimals: the value read back differs from the value written by at most \<open>5 \<cdot> 10\<^sup>-\<^sup>7\<close>.\<close>

lemma round_half_even_error: "\<bar>of_int (round_half_even x) - x\<bar> \<le> 1 / 2"
  unfolding round_half_even_def Let_def
  by (auto simp: abs_if) linarith+

lemma round6_error: "\<bar>round6 x - x\<bar> \<le> 5 / 10 ^ 7"
proof -
  have *: "\<bar>of_int (round_half_even (\<bar>x\<bar> * 10 ^ 6)) - \<bar>x\<bar> * 10 ^ 6\<bar> \<le> 1 / 2"
    by (rule round_half_even_error)
  show ?thesis
  proof (cases "0 \<le> x")
    case True
    with * show ?thesis
      by (simp add: round6_nonneg abs_if field_simps split: if_splits)
  next
    case False
    then have "x < 0" by simp
    with * show ?thesis
      by (simp add: round6_neg abs_if field_simps split: if_splits)
  qed
qed

definition round6_mbr :: "MBR \<Rightarrow> MBR" where
  "round6_mbr m =
     \<lparr>x_low = round6 (x_low m), y_low = round6 (y_low m),
      x_high = round6 (x_high m), y_high = round6 (y_high m)\<rparr>"

fun round6_tree :: "node \<Rightarrow> node" where
  "round6_tree (Node i m) = Node i (round6_mbr m)"
| "round6_tree (InternalNode i m f cs) = InternalNode i (round6_mbr m) f (map round6_tree cs)"

lemma round6_tree_simps [simp]:
  "node_id (round6_tree n) = node_id n" "mbr (round6_tree n) = round6_mbr (mbr n)"
  by (cases n; simp)+

lemma is_union_round6:
  assumes "is_union m ms"
  shows "is_union (round6_mbr m) (map round6_mbr ms)"
proof -
  from assms have ne: "ms \<noteq> []" by (simp add: is_union_def)
  have mn: "round6 (Min (set (map f ms))) = Min (set (map (f \<circ> round6_mbr \<circ> id) ms))"
    if "\<And>m. f (round6_mbr m) = round6 (f m)" for f :: "MBR \<Rightarrow> real"
  proof -
    have "round6 (Min (f ` set ms)) = Min (round6 ` f ` set ms)"
      using ne by (intro mono_Min_commute [OF round6_mono]) simp_all
    then show ?thesis
      using that by (simp add: image_image)
  qed
  have mx: "round6 (Max (set (map f ms))) = Max (set (map (f \<circ> round6_mbr \<circ> id) ms))"
    if "\<And>m. f (round6_mbr m) = round6 (f m)" for f :: "MBR \<Rightarrow> real"
  proof -
    have "round6 (Max (f ` set ms)) = Max (round6 ` f ` set ms)"
      using ne by (intro mono_Max_commute [OF round6_mono]) simp_all
    then show ?thesis
      using that by (simp add: image_image)
  qed
  from assms ne mn [of x_low] mn [of y_low] mx [of x_high] mx [of y_high] show ?thesis
    by (simp add: is_union_def round6_mbr_def)
qed

lemma is_union_unique: "is_union m ms \<Longrightarrow> is_union m' ms \<Longrightarrow> m = m'"
  by (simp add: is_union_def)

definition child_tokens :: "node \<Rightarrow> string list" where
  "child_tokens c =
     [int_to_string (node_id c), fixed6 (x_low (mbr c)), fixed6 (x_high (mbr c)),
      fixed6 (y_low (mbr c)), fixed6 (y_high (mbr c))]"

lemma seps [simp]:
  "is_sep (CHR ''['')" "is_sep (CHR '']'')" "is_sep (CHR '','')" "is_sep (CHR '' '')"
  by (simp_all add: is_sep_def isdigit_def)

lemma scan_mbr:
  assumes "is_sep p"
  shows "extract_loop (Some p) (MBR_toString m @ rest) [] numbers
           = extract_loop (Some (CHR '']'')) rest []
               (numbers @ [fixed6 (x_low m), fixed6 (x_high m), fixed6 (y_low m), fixed6 (y_high m)])"
  using assms
  by (simp add: MBR_toString_def scan_sep scan_double_token fixed6_token
      del: extract_loop.simps)

lemma scan_child:
  assumes "is_sep p"
  shows "extract_loop (Some p)
           ((''['' @ int_to_string (node_id c) @ '', '' @ MBR_toString (mbr c) @ '']'') @ rest)
           [] numbers
           = extract_loop (Some (CHR '']'')) rest [] (numbers @ child_tokens c)"
  using assms
  by (simp add: child_tokens_def scan_sep scan_int_token int_to_string_token scan_mbr
      del: extract_loop.simps)

lemma scan_children:
  assumes "is_sep p" "is_sep s"
  shows "extract_loop (Some p) (children_toString cs @ s # rest) [] numbers
           = extract_loop (Some s) rest [] (numbers @ concat (map child_tokens cs))"
  using assms(1)
proof (induction cs arbitrary: p numbers rule: children_toString.induct)
  case 1
  then show ?case
    using assms(2) by (simp add: scan_sep del: extract_loop.simps)
next
  case (2 c)
  have "extract_loop (Some p)
           ((''['' @ int_to_string (node_id c) @ '', '' @ MBR_toString (mbr c) @ '']'') @ s # rest)
           [] numbers
           = extract_loop (Some (CHR '']'')) (s # rest) [] (numbers @ child_tokens c)"
    using "2.prems" by (rule scan_child)
  then show ?case
    using assms(2) by (simp add: scan_sep del: extract_loop.simps)
next
  case (3 c c' cs)
  have "extract_loop (Some p)
           ((''['' @ int_to_string (node_id c) @ '', '' @ MBR_toString (mbr c) @ '']'')
              @ '', '' @ children_toString (c' # cs) @ s # rest)
           [] numbers
           = extract_loop (Some (CHR '']'')) ('', '' @ children_toString (c' # cs) @ s # rest) []
               (numbers @ child_tokens c)"
    using "3.prems" by (rule scan_child)
  also have "\<dots> = extract_loop (Some (CHR '' '')) (children_toString (c' # cs) @ s # rest) []
               (numbers @ child_tokens c)"
    by (simp add: scan_sep del: extract_loop.simps)
  also have "\<dots> = extract_loop (Some s) rest []
               ((numbers @ child_tokens c) @ concat (map child_tokens (c' # cs)))"
    by (rule "3.IH") simp
  finally show ?case
    by (simp del: extract_loop.simps)
qed

lemma extract_numbers_toString:
  "extract_numbers (toString (InternalNode i m f cs))
     = (if f then ''0'' else ''1'') # int_to_string i # concat (map child_tokens cs)"
proof -
  have flag: "int_token (if f then ''0'' else ''1'')"
    by (auto simp: int_token_def digits_def isdigit_def)
  have "extract_numbers (toString (InternalNode i m f cs))
      = extract_loop None
          (CHR ''['' # (if f then ''0'' else ''1'') @ CHR '','' # CHR '' '' # int_to_string i
             @ CHR '','' # CHR '' '' # CHR ''['' # children_toString cs @ CHR '']'' # '']'')
          [] []"
    by (simp add: extract_numbers_def del: extract_loop.simps)
  also have "\<dots> = extract_loop (Some (CHR ''[''))
          ((if f then ''0'' else ''1'') @ CHR '','' # CHR '' '' # int_to_string i
             @ CHR '','' # CHR '' '' # CHR ''['' # children_toString cs @ CHR '']'' # '']'')
          [] []"
    by (simp add: scan_sep del: extract_loop.simps)
  also have "\<dots> = extract_loop (Some (CHR '',''))
          (CHR '' '' # int_to_string i
             @ CHR '','' # CHR '' '' # CHR ''['' # children_toString cs @ CHR '']'' # '']'')
          [] ([] @ [if f then ''0'' else ''1''])"
    by (rule scan_int_token [OF flag]) simp_all
  also have "\<dots> = extract_loop (Some (CHR '' ''))
          (int_to_string i
             @ CHR '','' # CHR '' '' # CHR ''['' # children_toString cs @ CHR '']'' # '']'')
          [] [if f then ''0'' else ''1'']"
    by (simp add: scan_sep del: extract_loop.simps)
  also have "\<dots> = extract_loop (Some (CHR '',''))
          (CHR '' '' # CHR ''['' # children_toString cs @ CHR '']'' # '']'')
          [] ([if f then ''0'' else ''1''] @ [int_to_string i])"
    by (rule scan_int_token [OF int_to_string_token]) simp_all
  also have "\<dots> = extract_loop (Some (CHR ''[''))
          (children_toString cs @ CHR '']'' # '']'')
          [] [if f then ''0'' else ''1'', int_to_string i]"
    by (simp add: scan_sep del: extract_loop.simps)
  also have "\<dots> = extract_loop (Some (CHR '']'')) '']'' []
          ([if f then ''0'' else ''1'', int_to_string i] @ concat (map child_tokens cs))"
    by (rule scan_children) simp_all
  also have "\<dots> = (if f then ''0'' else ''1'') # int_to_string i # concat (map child_tokens cs)"
    by (simp add: is_sep_def isdigit_def)
  finally show ?thesis .
qed

definition int_range :: "int \<Rightarrow> bool" where
  "int_range i \<longleftrightarrow> - (2 ^ 31) \<le> i \<and> i < 2 ^ 31"

lemma stod_fixed6_at:
  "bind_failure (Inr (fixed6 x)) stod = Inr (round6 x)"
  by (simp add: bind_failure_def stod_fixed6)

lemma read_children_tokens:
  assumes "\<forall>c \<in> set todo. int_range (node_id c) \<and>
             (if is_leaf then rd c = Node (node_id c) (round6_mbr (mbr c))
              else m (node_id c) = Some (rd c))"
  shows "read_children (pre @ concat (map child_tokens todo)) is_leaf m (length pre) acc
           = Inr (acc @ map rd todo)"
  using assms
proof (induction todo arbitrary: pre acc)
  case Nil
  then show ?case
    by (simp add: read_children.simps [of pre is_leaf m "length pre" acc])
next
  case (Cons c todo)
  define numbers where "numbers = pre @ concat (map child_tokens (c # todo))"
  define i where "i = length pre"
  have len: "i < length numbers" "i + 1 < length numbers" "i + 2 < length numbers"
    "i + 3 < length numbers" "i + 4 < length numbers"
    by (simp_all add: numbers_def i_def child_tokens_def)
  have nth: "numbers ! i = int_to_string (node_id c)"
    "numbers ! (i + 1) = fixed6 (x_low (mbr c))"
    "numbers ! (i + 2) = fixed6 (x_high (mbr c))"
    "numbers ! (i + 3) = fixed6 (y_low (mbr c))"
    "numbers ! (i + 4) = fixed6 (y_high (mbr c))"
    by (simp_all add: numbers_def i_def child_tokens_def nth_append)
  from Cons.prems have rg: "int_range (node_id c)"
    and ch: "(if is_leaf then Inr (Node (node_id c)
                 \<lparr>x_low = round6 (x_low (mbr c)), y_low = round6 (y_low (mbr c)),
                  x_high = round6 (x_high (mbr c)), y_high = round6 (y_high (mbr c))\<rparr>)
              else (case m (node_id c) of None \<Rightarrow> Inl EndIteratorDereference
                    | Some child \<Rightarrow> Inr child)) = Inr (rd c)"
    by (auto simp: round6_mbr_def)
  from rg have st: "stoi (int_to_string (node_id c)) = Inr (node_id c)"
    by (intro stoi_int_to_string) (simp_all add: int_range_def)
  have "numbers = (pre @ child_tokens c) @ concat (map child_tokens todo)"
    by (simp add: numbers_def)
  moreover have "i + 5 = length (pre @ child_tokens c)"
    by (simp add: i_def child_tokens_def)
  moreover have "read_children ((pre @ child_tokens c) @ concat (map child_tokens todo)) is_leaf m
       (length (pre @ child_tokens c)) (acc @ [rd c]) = Inr ((acc @ [rd c]) @ map rd todo)"
    using Cons.prems by (intro Cons.IH) simp
  ultimately have rec: "read_children numbers is_leaf m (i + 5) (acc @ [rd c])
       = Inr (acc @ map rd (c # todo))"
    by simp
  have "read_children numbers is_leaf m i acc = Inr (acc @ map rd (c # todo))"
    by (subst read_children.simps)
       (simp only: len nth st ch rec bind_failure_def at_index_def stod_fixed6 if_True
          sum.case)
  then show ?case
    by (simp only: numbers_def i_def)
qed


lemma recompute_rounded:
  assumes "is_union mb (map mbr cs)"
  shows "recompute_node_mbr (InternalNode i m0 f (map round6_tree cs))
           = Inr (InternalNode i (round6_mbr mb) f (map round6_tree cs))"
proof -
  from assms have ne: "cs \<noteq> []" by (simp add: is_union_def)
  then have "children (InternalNode i m0 f (map round6_tree cs)) \<noteq> []" by simp
  from recompute_node_mbr_nonempty [OF this] obtain n' where
    r: "recompute_node_mbr (InternalNode i m0 f (map round6_tree cs)) = Inr n'"
    by blast
  from recompute_node_mbr_Inr [OF r]
  have p: "children n' = map round6_tree cs" "node_id n' = i" "children_are_leafs n' = f"
    "is_union (mbr n') (map mbr (map round6_tree cs))"
    by simp_all
  have "map mbr (map round6_tree cs) = map round6_mbr (map mbr cs)"
    by simp
  with p(4) is_union_round6 [OF assms] have "mbr n' = round6_mbr mb"
    by (metis is_union_unique)
  moreover from r obtain a b c d where "n' = InternalNode a b c d"
    by (auto simp: recompute_node_mbr_def set_mbr_def split: list.splits)
  ultimately show ?thesis
    using r p by simp
qed

lemma read_node_toString:
  assumes un: "is_union mb (map mbr cs)" and ri: "int_range i"
    and ch: "\<forall>c \<in> set cs. int_range (node_id c) \<and>
               (if f then (\<exists>j b. c = Node j b) else m (node_id c) = Some (round6_tree c))"
  shows "read_node m (toString (InternalNode i mb f cs)) = Inr (round6_tree (InternalNode i mb f cs))"
proof -
  define flag where "flag = (if f then ''0'' else ''1'')"
  define numbers where "numbers = [flag, int_to_string i] @ concat (map child_tokens cs)"
  have ex: "extract_numbers (toString (InternalNode i mb f cs)) = numbers"
    unfolding numbers_def flag_def by (simp only: extract_numbers_toString append.simps)
  have fl: "(flag = ''0'') = f"
    by (simp add: flag_def)
  have a0: "at_index numbers 0 = Inr flag" and a1: "at_index numbers 1 = Inr (int_to_string i)"
    by (simp_all add: at_index_def numbers_def)
  from ri have st: "stoi (int_to_string i) = Inr i"
    by (intro stoi_int_to_string) (simp_all add: int_range_def)
  have "\<forall>c \<in> set cs. int_range (node_id c) \<and>
             (if f then round6_tree c = Node (node_id c) (round6_mbr (mbr c))
              else m (node_id c) = Some (round6_tree c))"
    using ch by fastforce
  from read_children_tokens [OF this, of "[flag, int_to_string i]" "[]"]
  have rc: "read_children numbers f m 2 [] = Inr (map round6_tree cs)"
    by (simp add: numbers_def numeral_2_eq_2)
  show ?thesis
    unfolding read_node_def ex Let_def
    by (simp only: a0 a1 st fl rc bind_failure_def sum.case recompute_rounded [OF un]
        round6_tree.simps)
qed

fun read_state ::
  "(int \<rightharpoonup> node) \<Rightarrow> node option \<Rightarrow> string list \<Rightarrow> failure + ((int \<rightharpoonup> node) \<times> node option)" where
  "read_state m rt [] = Inr (m, rt)"
| "read_state m rt (line # rest) =
     (case read_node m line of
        Inl e \<Rightarrow> Inl e
      | Inr n \<Rightarrow> read_state (m(node_id n \<mapsto> n)) (Some n) rest)"

lemma read_lines_state: "read_lines m rt ls = map_sum (\<lambda>e. e) snd (read_state m rt ls)"
  by (induction ls arbitrary: m rt) (auto split: sum.splits)

lemma read_state_append:
  "read_state m rt (xs @ ys) =
     (case read_state m rt xs of Inl e \<Rightarrow> Inl e | Inr (m', rt') \<Rightarrow> read_state m' rt' ys)"
  by (induction xs arbitrary: m rt) (auto split: sum.splits)

definition store_level :: "node list \<Rightarrow> (int \<rightharpoonup> node) \<Rightarrow> (int \<rightharpoonup> node)" where
  "store_level us m = fold (\<lambda>u mm. mm(node_id u \<mapsto> round6_tree u)) us m"

lemma store_level_other: "k \<notin> node_id ` set us \<Longrightarrow> store_level us m k = m k"
  unfolding store_level_def by (induction us arbitrary: m) auto

lemma store_level_member:
  "distinct (map node_id us) \<Longrightarrow> u \<in> set us \<Longrightarrow> store_level us m (node_id u) = Some (round6_tree u)"
proof (induction us arbitrary: m)
  case Nil
  then show ?case by simp
next
  case (Cons v us)
  show ?case
  proof (cases "u \<in> set us")
    case True
    with Cons show ?thesis
      by (simp add: store_level_def)
  next
    case False
    with Cons.prems have uv: "u = v" and "node_id v \<notin> node_id ` set us"
      by auto
    then have "store_level us (m(node_id v \<mapsto> round6_tree v)) (node_id v) = Some (round6_tree v)"
      by (simp add: store_level_other)
    with uv show ?thesis
      by (simp add: store_level_def)
  qed
qed

lemma read_level:
  assumes "\<forall>u \<in> set us. \<exists>i mb cs. u = InternalNode i mb f cs \<and> is_union mb (map mbr cs) \<and>
             set cs \<subseteq> set nodes \<and> lo \<le> i \<and> int_range i"
    and "\<forall>c \<in> set nodes. int_range (node_id c) \<and>
           (if f then (\<exists>j b. c = Node j b)
            else m (node_id c) = Some (round6_tree c) \<and> node_id c < lo)"
  shows "read_state m rt (map toString us)
           = Inr (store_level us m, if us = [] then rt else Some (round6_tree (last us)))"
  using assms
proof (induction us arbitrary: m rt)
  case Nil
  then show ?case by (simp add: store_level_def)
next
  case (Cons u us)
  from Cons.prems(1) obtain i mb cs where u: "u = InternalNode i mb f cs"
    and un: "is_union mb (map mbr cs)" and sub: "set cs \<subseteq> set nodes"
    and lo: "lo \<le> i" and ri: "int_range i"
    by auto
  from sub Cons.prems(2) have "\<forall>c \<in> set cs. int_range (node_id c) \<and>
               (if f then (\<exists>j b. c = Node j b) else m (node_id c) = Some (round6_tree c))"
    by (auto split: if_splits)
  from read_node_toString [OF un ri this] u
  have rn: "read_node m (toString u) = Inr (round6_tree u)"
    by simp
  define m1 where "m1 = m(node_id u \<mapsto> round6_tree u)"
  have b: "\<forall>c \<in> set nodes. int_range (node_id c) \<and>
           (if f then (\<exists>j b. c = Node j b)
            else m1 (node_id c) = Some (round6_tree c) \<and> node_id c < lo)"
    using Cons.prems(2) lo u by (auto simp: m1_def)
  from Cons.prems(1) have a: "\<forall>u \<in> set us. \<exists>i mb cs. u = InternalNode i mb f cs \<and>
        is_union mb (map mbr cs) \<and> set cs \<subseteq> set nodes \<and> lo \<le> i \<and> int_range i"
    by simp
  from a b have "read_state m1 (Some (round6_tree u)) (map toString us)
           = Inr (store_level us m1,
                  if us = [] then Some (round6_tree u) else Some (round6_tree (last us)))"
    by (rule Cons.IH)
  with rn show ?case
    by (simp add: m1_def store_level_def)
qed

definition loader_inv :: "node list \<Rightarrow> int \<Rightarrow> (int \<rightharpoonup> node) \<Rightarrow> bool" where
  "loader_inv nodes id0 m \<longleftrightarrow>
     0 \<le> id0 \<and> id0 + int (length nodes) \<le> 2 ^ 31 \<and>
     (\<forall>c \<in> set nodes. int_range (node_id c) \<and>
        (if id0 = 0 then (\<exists>j b. c = Node j b)
         else m (node_id c) = Some (round6_tree c) \<and> node_id c < id0))"

lemma level_ids:
  assumes "level_ok nodes id0 upper id1" "u \<in> set upper"
  shows "id0 \<le> node_id u \<and> node_id u < id1"
proof -
  from assms(2) obtain j where j: "j < length upper" "u = upper ! j"
    by (auto simp: in_set_conv_nth)
  from assms(1) have "map node_id upper = map (\<lambda>i. id0 + int i) [0..<length upper]"
    and "id1 = id0 + int (length upper)"
    by (simp_all add: level_ok_def)
  with j have "node_id u = id0 + int j" "id1 = id0 + int (length upper)"
    by (metis nth_map length_map nth_upt add_0 diff_zero length_upt)+
  with j(1) show ?thesis by simp
qed

lemma level_ids_distinct:
  assumes "level_ok nodes id0 upper id1"
  shows "distinct (map node_id upper)"
proof -
  from assms have "map node_id upper = map (\<lambda>i. id0 + int i) [0..<length upper]"
    by (simp add: level_ok_def)
  moreover have "distinct (map (\<lambda>i. id0 + int i) [0..<length upper])"
    by (simp add: distinct_map inj_on_def)
  ultimately show ?thesis by simp
qed

lemma level_read_back:
  assumes cu: "create_upper_level nodes id0 = Inr (upper, id1)"
    and inv: "loader_inv nodes id0 m" and len: "1 < length nodes"
  shows "read_state m rt (map toString upper)
           = Inr (store_level upper m, Some (round6_tree (last upper)))
       \<and> loader_inv upper id1 (store_level upper m) \<and> upper \<noteq> []"
proof -
  note lv = create_upper_level_Inr [OF cu]
  from lv have ul: "length upper = (length nodes + 19) div 20"
    and id1: "id1 = id0 + int (length upper)"
    by (simp_all add: level_ok_def)
  from ul len have ne: "upper \<noteq> []" and two: "2 * length upper \<le> length nodes"
    by auto
  from inv have id0: "0 \<le> id0" and top: "id0 + int (length nodes) \<le> 2 ^ 31"
    by (simp_all add: loader_inv_def)
  have rng: "int_range (node_id u) \<and> id0 \<le> node_id u \<and> node_id u < id1" if "u \<in> set upper" for u
    using level_ids [OF lv that] id0 top id1 two by (simp add: int_range_def)
  have a: "\<forall>u \<in> set upper. \<exists>i mb cs. u = InternalNode i mb (id0 = 0) cs \<and>
             is_union mb (map mbr cs) \<and> set cs \<subseteq> set nodes \<and> id0 \<le> i \<and> int_range i"
  proof
    fix u assume u: "u \<in> set upper"
    with lv obtain i mb f cs where n: "u = InternalNode i mb f cs"
      and "is_union (mbr u) (map mbr (children u))" "children_are_leafs u = (id0 = 0)"
      unfolding level_ok_def by blast
    with level_children_subset [OF lv u] rng [OF u]
    show "\<exists>i mb cs. u = InternalNode i mb (id0 = 0) cs \<and>
             is_union mb (map mbr cs) \<and> set cs \<subseteq> set nodes \<and> id0 \<le> i \<and> int_range i"
      by simp
  qed
  from inv have b: "\<forall>c \<in> set nodes. int_range (node_id c) \<and>
           (if id0 = 0 then (\<exists>j b. c = Node j b)
            else m (node_id c) = Some (round6_tree c) \<and> node_id c < id0)"
    by (simp add: loader_inv_def)
  from read_level [OF a b, of rt] ne
  have r: "read_state m rt (map toString upper)
           = Inr (store_level upper m, Some (round6_tree (last upper)))"
    by simp
  have "loader_inv upper id1 (store_level upper m)"
    unfolding loader_inv_def
  proof (intro conjI ballI)
    show "0 \<le> id1" using id0 id1 by simp
    show "id1 + int (length upper) \<le> 2 ^ 31" using id1 two top by simp
  next
    fix u assume u: "u \<in> set upper"
    from rng [OF u] show "int_range (node_id u)" by simp
    from ne id0 id1 have "id1 \<noteq> 0" by (cases upper) auto
    moreover from store_level_member [OF level_ids_distinct [OF lv] u]
    have "store_level upper m (node_id u) = Some (round6_tree u)" .
    ultimately show "if id1 = 0 then \<exists>j b. u = Node j b
      else store_level upper m (node_id u) = Some (round6_tree u) \<and> node_id u < id1"
      using rng [OF u] by simp
  qed
  with r ne show ?thesis by simp
qed

lemma build_loop_read_back:
  "build_loop nodes id0 out = Inr (final, out') \<Longrightarrow>
   read_state Map.empty None out = Inr (m, rt) \<Longrightarrow> loader_inv nodes id0 m \<Longrightarrow>
   1 < length nodes \<Longrightarrow>
   \<exists>m'. read_state Map.empty None out' = Inr (m', Some (round6_tree (hd final)))"
proof (induction nodes id0 out arbitrary: m rt rule: build_loop.induct)
  case (1 nodes id0 out)
  from "1.prems"(1,4) obtain upper id1 where
    cu: "create_upper_level nodes id0 = Inr (upper, id1)"
    and rec: "build_loop upper id1 (out @ map toString upper) = Inr (final, out')"
    by (auto simp: build_loop.simps [of nodes] split: sum.splits)
  from level_read_back [OF cu "1.prems"(3,4), of rt]
  have r: "read_state m rt (map toString upper)
           = Inr (store_level upper m, Some (round6_tree (last upper)))"
    and inv: "loader_inv upper id1 (store_level upper m)" and ne: "upper \<noteq> []"
    by simp_all
  from "1.prems"(2) r
  have st: "read_state Map.empty None (out @ map toString upper)
           = Inr (store_level upper m, Some (round6_tree (last upper)))"
    by (simp add: read_state_append)
  show ?case
  proof (cases "1 < length upper")
    case True
    from "1.IH" [OF "1.prems"(4) cu refl rec st inv True] show ?thesis .
  next
    case False
    with rec have "final = upper" "out' = out @ map toString upper"
      by (auto simp: build_loop.simps [of upper])
    moreover from False ne have "last upper = hd upper"
      by (cases upper) auto
    ultimately show ?thesis
      using st by simp
  qed
qed

text \<open>
  C6. The lines written by \<open>build_tree\<close> are read by \<open>build_tree_from_file\<close> into the
  tree that was written, with every coordinate replaced by its six-decimal rounding: the
  same node ids, the same flags, the same children in the same order at every node; the
  root is the node of the last line; and a coordinate read back differs from the one
  written by at most \<open>5 \<cdot> 10\<^sup>-\<^sup>7\<close>. The ids are C++ \<open>int\<close> values and the number of
  entries fits an \<open>int\<close>.
\<close>

theorem serialize_deserialize_round_trip:
  assumes "build_tree (build_leaf_nodes entries) = Inr (outfile, Some rt)"
    and "\<forall>e \<in> set entries. int_range (entry_id e)"
    and "length entries < 2 ^ 31"
  shows "build_tree_from_file outfile = Inr (Some (round6_tree rt))
       \<and> \<bar>round6 x - x\<bar> \<le> 5 / 10 ^ 7"
proof -
  let ?nodes = "build_leaf_nodes entries"
  from build_tree_Some [OF assms(1)] obtain final where
    bl: "build_loop ?nodes 0 [] = Inr (rt # final, outfile)"
    and rtI: "\<exists>a b c d. rt = InternalNode a b c d"
    by blast
  have len: "1 < length ?nodes"
  proof (rule ccontr)
    assume "\<not> 1 < length ?nodes"
    with bl have "rt # final = ?nodes"
      by (simp add: build_loop.simps [of ?nodes])
    then have "rt \<in> set ?nodes"
      by (metis list.set_intros(1))
    with rtI show False
      by (auto simp: build_leaf_nodes_def)
  qed
  have inv: "loader_inv ?nodes 0 Map.empty"
    using assms(2,3) by (auto simp: loader_inv_def build_leaf_nodes_def)
  have "read_state Map.empty None [] = Inr (Map.empty, None)"
    by simp
  from build_loop_read_back [OF bl this inv len] obtain m' where
    "read_state Map.empty None outfile = Inr (m', Some (round6_tree rt))"
    by auto
  then have "build_tree_from_file outfile = Inr (Some (round6_tree rt))"
    by (simp add: build_tree_from_file_def read_lines_state)
  with round6_error show ?thesis by blast
qed

definition two_entries :: "Entry list" where
  "two_entries =
     [\<lparr>entry_id = 1, entry_mbr = \<lparr>x_low = 0, y_low = 1 / 3, x_high = 1, y_high = 1\<rparr>, z_value = ''0''\<rparr>,
      \<lparr>entry_id = - 2, entry_mbr = \<lparr>x_low = - (5 / 2), y_low = 2, x_high = 3, y_high = 3\<rparr>, z_value = ''1''\<rparr>]"

lemma two_entries_level:
  "create_upper_level (build_leaf_nodes two_entries) 0 =
     Inr ([InternalNode 0 \<lparr>x_low = - (5 / 2), y_low = 1 / 3, x_high = 3, y_high = 3\<rparr> True
             [Node 1 \<lparr>x_low = 0, y_low = 1 / 3, x_high = 1, y_high = 1\<rparr>,
              Node (- 2) \<lparr>x_low = - (5 / 2), y_low = 2, x_high = 3, y_high = 3\<rparr>]], 1)"
  by (simp add: create_upper_level_unfold build_leaf_nodes_def two_entries_def remainder_node_def
      new_internal_node_def update_parent_mbr_def)

lemma dec_digits_small: "n < 10 \<Longrightarrow> dec_digits n = [digit_char n]"
  by (simp add: dec_digits.simps [of n])

lemma dec_digits_large:
  "\<not> n < 10 \<Longrightarrow> dec_digits n = dec_digits (n div 10) @ [digit_char (n mod 10)]"
  by (simp add: dec_digits.simps [of n])

lemma replicate_numeral: "replicate (numeral k) x = x # replicate (pred_numeral k) x"
  by (simp add: numeral_eq_Suc)

lemma fixed6_examples:
  "fixed6 0 = ''0.000000''" "fixed6 1 = ''1.000000''" "fixed6 (1 / 3) = ''0.333333''"
  "fixed6 2 = ''2.000000''" "fixed6 3 = ''3.000000''" "fixed6 (- (5 / 2)) = ''-2.500000''"
  by (simp_all add: fixed6_def round_half_even_def Let_def dec_digits_small dec_digits_large
      digit_char_def replicate_numeral)


lemma two_entries_tree:
  "build_tree (build_leaf_nodes two_entries) =
     Inr ([''[0, 0, [[1, [0.000000, 1.000000, 0.333333, 1.000000]], [-2, [-2.500000, 3.000000, 2.000000, 3.000000]]]]''],
          Some (InternalNode 0 \<lparr>x_low = - (5 / 2), y_low = 1 / 3, x_high = 3, y_high = 3\<rparr> True
             [Node 1 \<lparr>x_low = 0, y_low = 1 / 3, x_high = 1, y_high = 1\<rparr>,
              Node (- 2) \<lparr>x_low = - (5 / 2), y_low = 2, x_high = 3, y_high = 3\<rparr>]))"
proof -
  have "length (build_leaf_nodes two_entries) = 2"
    by (simp add: build_leaf_nodes_def two_entries_def)
  then show ?thesis
    by (simp add: build_tree_def build_loop.simps [of "build_leaf_nodes two_entries"]
        build_loop.simps [of "[x]" for x] two_entries_level MBR_toString_def fixed6_examples
        int_to_string_def dec_digits_small digit_char_def)
qed

lemma round6_examples:
  "round6 0 = 0" "round6 1 = 1" "round6 (1 / 3) = 333333 / 1000000"
  "round6 2 = 2" "round6 3 = 3" "round6 (- (5 / 2)) = - (5 / 2)"
  by (simp_all add: round6_def round_half_even_def Let_def)

theorem serialize_deserialize_round_trip_witness:
  "list_all (\<lambda>e. int_range (entry_id e)) two_entries \<and> length two_entries < 2 ^ 31
   \<and> build_tree (build_leaf_nodes two_entries) =
       Inr ([''[0, 0, [[1, [0.000000, 1.000000, 0.333333, 1.000000]], [-2, [-2.500000, 3.000000, 2.000000, 3.000000]]]]''],
          Some (InternalNode 0 \<lparr>x_low = - (5 / 2), y_low = 1 / 3, x_high = 3, y_high = 3\<rparr> True
             [Node 1 \<lparr>x_low = 0, y_low = 1 / 3, x_high = 1, y_high = 1\<rparr>,
              Node (- 2) \<lparr>x_low = - (5 / 2), y_low = 2, x_high = 3, y_high = 3\<rparr>]))
   \<and> build_tree_from_file
        [''[0, 0, [[1, [0.000000, 1.000000, 0.333333, 1.000000]], [-2, [-2.500000, 3.000000, 2.000000, 3.000000]]]]'']
       = Inr (Some (InternalNode 0 \<lparr>x_low = - (5 / 2), y_low = 333333 / 1000000, x_high = 3, y_high = 3\<rparr> True
             [Node 1 \<lparr>x_low = 0, y_low = 333333 / 1000000, x_high = 1, y_high = 1\<rparr>,
              Node (- 2) \<lparr>x_low = - (5 / 2), y_low = 2, x_high = 3, y_high = 3\<rparr>]))
   \<and> \<bar>round6 (1 / 3) - 1 / 3\<bar> \<le> 5 / 10 ^ 7"
proof -
  have r: "\<forall>e \<in> set two_entries. int_range (entry_id e)"
    by (simp add: two_entries_def int_range_def)
  have l: "length two_entries < 2 ^ 31"
    by (simp add: two_entries_def)
  from serialize_deserialize_round_trip [OF two_entries_tree r l, of "1 / 3"] r l two_entries_tree
  show ?thesis
    by (simp add: round6_mbr_def round6_examples list_all_iff)
qed

end
